theory Spec2Isabelle
  imports Main "HOL-Library.Sublist"
begin

section \<open>Python values and exceptions\<close>

text \<open>
  A value decoded from a JSON body (\<open>response.json()\<close>): \<open>None\<close>, a bool, an int, a
  str, a list or a dict with string keys. A dict is an association list in insertion
  order with one binding per key, as \<open>json.loads\<close> delivers it. JSON numbers with a
  fraction or an exponent decode to Python floats; the collector never reads one, and
  they are left out of the value universe.
\<close>

datatype json =
    JNull
  | JBool bool
  | JInt int
  | JStr string
  | JList "json list"
  | JDict "(string \<times> json) list"

text \<open>The exceptions the collector can meet, by their Python class.\<close>

datatype error =
    KeyError
  | TypeError
  | ValueError
  | ClientResponseError int
  | ClientError
  | DecodeError

text \<open>\<open>bool(v)\<close>, as \<open>while current_url:\<close> and \<open>... and response['links']['next']\<close> use it.\<close>

fun truthy :: "json \<Rightarrow> bool" where
  "truthy JNull = False"
| "truthy (JBool b) = b"
| "truthy (JInt i) = (i \<noteq> 0)"
| "truthy (JStr s) = (s \<noteq> [])"
| "truthy (JList xs) = (xs \<noteq> [])"
| "truthy (JDict kvs) = (kvs \<noteq> [])"

text \<open>
  \<open>key in v\<close> for a str \<open>key\<close>: key membership in a dict, element membership in a list,
  substring test in a str, and \<open>TypeError\<close> for a value that is not iterable.
\<close>

fun py_in :: "string \<Rightarrow> json \<Rightarrow> error + bool" where
  "py_in key (JDict kvs) = Inr (key \<in> set (map fst kvs))"
| "py_in key (JList xs) = Inr (JStr key \<in> set xs)"
| "py_in key (JStr s) = Inr (sublist key s)"
| "py_in key JNull = Inl TypeError"
| "py_in key (JBool b) = Inl TypeError"
| "py_in key (JInt i) = Inl TypeError"

text \<open>
  \<open>v[key]\<close> for a str \<open>key\<close>: the binding of a dict (\<open>KeyError\<close> when there is none);
  a list or a str takes integer indices only, and the other values are not
  subscriptable (\<open>TypeError\<close>).
\<close>

fun py_getitem :: "json \<Rightarrow> string \<Rightarrow> error + json" where
  "py_getitem (JDict kvs) key = (case map_of kvs key of None \<Rightarrow> Inl KeyError | Some v \<Rightarrow> Inr v)"
| "py_getitem (JList xs) key = Inl TypeError"
| "py_getitem (JStr s) key = Inl TypeError"
| "py_getitem JNull key = Inl TypeError"
| "py_getitem (JBool b) key = Inl TypeError"
| "py_getitem (JInt i) key = Inl TypeError"

text \<open>
  \<open>all_data.extend(v)\<close>: the elements of a list, the characters of a str, the keys of
  a dict; \<open>TypeError\<close> for a value that is not iterable.
\<close>

fun py_extend :: "json list \<Rightarrow> json \<Rightarrow> error + json list" where
  "py_extend all_data (JList xs) = Inr (all_data @ xs)"
| "py_extend all_data (JStr s) = Inr (all_data @ map (\<lambda>c. JStr [c]) s)"
| "py_extend all_data (JDict kvs) = Inr (all_data @ map (\<lambda>kv. JStr (fst kv)) kvs)"
| "py_extend all_data JNull = Inl TypeError"
| "py_extend all_data (JBool b) = Inl TypeError"
| "py_extend all_data (JInt i) = Inl TypeError"

subsection \<open>\<open>int(s)\<close> on a string\<close>

text \<open>
  \<open>int\<close> strips surrounding whitespace, takes an optional sign, and then decimal
  digits in which single underscores may separate digits. Anything else raises
  \<open>ValueError\<close> (here \<open>None\<close>). Characters are bytes here, so the digits and
  the whitespace are the ASCII ones; the interpreter's bound on the number of digits
  is left out.
\<close>

definition is_space :: "char \<Rightarrow> bool" where
  "is_space c = (c \<in> set [CHR '' '', CHR 0x09, CHR 0x0A, CHR 0x0B, CHR 0x0C, CHR 0x0D,
                           CHR 0x1C, CHR 0x1D, CHR 0x1E, CHR 0x1F])"

definition digit_val :: "char \<Rightarrow> nat option" where
  "digit_val c =
     (let n = (of_char c :: nat) in if 48 \<le> n \<and> n \<le> 57 then Some (n - 48) else None)"

fun parse_digits :: "nat \<Rightarrow> string \<Rightarrow> nat option" where
  "parse_digits acc [] = Some acc"
| "parse_digits acc (c # cs) =
     (if c = CHR ''_'' then
        (case cs of
           [] \<Rightarrow> None
         | d # ds \<Rightarrow> (case digit_val d of
                        None \<Rightarrow> None
                      | Some v \<Rightarrow> parse_digits (acc * 10 + v) ds))
      else (case digit_val c of
              None \<Rightarrow> None
            | Some v \<Rightarrow> parse_digits (acc * 10 + v) cs))"

definition strip :: "string \<Rightarrow> string" where
  "strip s = rev (dropWhile is_space (rev (dropWhile is_space s)))"

definition parse_unsigned :: "string \<Rightarrow> nat option" where
  "parse_unsigned ds =
     (case ds of
        [] \<Rightarrow> None
      | d # rest \<Rightarrow> (case digit_val d of
                       None \<Rightarrow> None
                     | Some v \<Rightarrow> parse_digits v rest))"

definition py_int :: "string \<Rightarrow> int option" where
  "py_int s =
     (case strip s of
        [] \<Rightarrow> None
      | c # cs \<Rightarrow>
          if c = CHR ''-'' then map_option (\<lambda>n. - int n) (parse_unsigned cs)
          else if c = CHR ''+'' then map_option int (parse_unsigned cs)
          else map_option int (parse_unsigned (c # cs)))"

section \<open>The remote API and the client's state\<close>

text \<open>
  What the collector reads of an \<open>aiohttp\<close> response: its status, the
  \<open>Retry-After\<close> header (\<open>response.headers.get('Retry-After')\<close>), and the outcomes
  of \<open>await response.json()\<close> and \<open>await response.text()\<close>, each \<open>None\<close> when
  the call raises.
\<close>

record response =
  status :: int
  retry_after_header :: "string option"
  json_body :: "json option"
  text_body :: "string option"

text \<open>\<open>session.get\<close> either raises a transport fault or delivers a response.\<close>

datatype reply = Fault | Reply response

type_synonym params = "(string \<times> string) list option"

text \<open>
  What one run of the collector does, in order: permits taken from and returned to
  \<open>self.semaphore\<close>, requests sent, and \<open>asyncio.sleep\<close> calls.
\<close>

datatype event = Acquire | Release | Get string params | Sleep int

text \<open>
  The mutable state: the semaphore's counter, the remote service (any state type
  \<open>'s\<close>), and the events so far.
\<close>

record 's world =
  sem_value :: nat
  remote :: 's
  events :: "event list"

text \<open>
  The client object: \<open>config.base_url\<close>, the session's \<open>get\<close> (the remote service's
  answer to a URL and query parameters, with its next state), and Python's \<open>str()\<close>
  on a value that is not a str, which the f-strings building the URLs apply to
  whatever name or id the remote service delivered.
\<close>

record 's client =
  base_url :: string
  session_get :: "'s \<Rightarrow> string \<Rightarrow> params \<Rightarrow> reply \<times> 's"
  str_builtin :: "json \<Rightarrow> string"

type_synonym ('a, 's) outcome = "((error + 'a) \<times> 's world) option"

definition log_event :: "event \<Rightarrow> 's world \<Rightarrow> 's world" where
  "log_event e w = w\<lparr>events := events w @ [e]\<rparr>"

definition release :: "'s world \<Rightarrow> 's world" where
  "release w = log_event Release (w\<lparr>sem_value := sem_value w + 1\<rparr>)"

definition acquire :: "'s world \<Rightarrow> 's world" where
  "acquire w = log_event Acquire (w\<lparr>sem_value := sem_value w - 1\<rparr>)"

text \<open>\<open>int(response.headers.get('Retry-After', 5))\<close>\<close>

definition retry_after :: "response \<Rightarrow> error + int" where
  "retry_after resp =
     (case retry_after_header resp of
        None \<Rightarrow> Inr 5
      | Some s \<Rightarrow> (case py_int s of None \<Rightarrow> Inl ValueError | Some d \<Rightarrow> Inr d))"

text \<open>
  \<open>response.raise_for_status()\<close> of aiohttp raises \<open>ClientResponseError\<close> when the
  status is 400 or more and returns otherwise.
\<close>

definition raise_for_status :: "response \<Rightarrow> error option" where
  "raise_for_status resp =
     (if 400 \<le> status resp then Some (ClientResponseError (status resp)) else None)"

section \<open>The request executor\<close>

text \<open>
  \<open>_make_request\<close>. The collector awaits every coroutine where it is created or in
  a plain \<open>for\<close> loop, so one task runs and \<open>async with self.semaphore\<close> on a counter
  of 0 waits for a release that no one can make: the call does not return
  (\<open>None\<close>). The retry is a recursive call inside the \<open>async with\<close> block, and the
  recursion has no bound, so the function takes fuel, one unit per call; \<open>None\<close> is
  also the answer when the fuel runs out. The \<open>except\<close> clause logs and re-raises;
  leaving the block, by return or by exception, releases the permit. A URL that is
  not a str makes \<open>session.get\<close> raise \<open>TypeError\<close> before anything is sent. After
  \<open>raise_for_status\<close> returns without raising, the function body ends and the call
  returns \<open>None\<close> (\<open>JNull\<close>).
\<close>

fun make_request :: "nat \<Rightarrow> 's client \<Rightarrow> json \<Rightarrow> params \<Rightarrow> 's world \<Rightarrow> (json, 's) outcome" where
  "make_request 0 c url ps w = None"
| "make_request (Suc n) c url ps w =
     (if sem_value w = 0 then None
      else
        let w1 = acquire w in
        (case url of
           JStr u \<Rightarrow>
             (case session_get c (remote w1) u ps of
                (Fault, s') \<Rightarrow>
                  Some (Inl ClientError, release (log_event (Get u ps) (w1\<lparr>remote := s'\<rparr>)))
              | (Reply resp, s') \<Rightarrow>
                  let w2 = log_event (Get u ps) (w1\<lparr>remote := s'\<rparr>) in
                  if status resp = 200 then
                    (case json_body resp of
                       None \<Rightarrow> Some (Inl DecodeError, release w2)
                     | Some body \<Rightarrow> Some (Inr body, release w2))
                  else if status resp = 429 then
                    (case retry_after resp of
                       Inl e \<Rightarrow> Some (Inl e, release w2)
                     | Inr d \<Rightarrow>
                         (case make_request n c url ps (log_event (Sleep d) w2) of
                            None \<Rightarrow> None
                          | Some (r, w3) \<Rightarrow> Some (r, release w3)))
                  else
                    (case text_body resp of
                       None \<Rightarrow> Some (Inl ClientError, release w2)
                     | Some txt \<Rightarrow>
                         (case raise_for_status resp of
                            Some e \<Rightarrow> Some (Inl e, release w2)
                          | None \<Rightarrow> Some (Inr JNull, release w2))))
         | _ \<Rightarrow> Some (Inl TypeError, release w1)))"

section \<open>The pager\<close>

text \<open>
  The body of the pager's loop reads two things from a response. First
  \<open>if 'data' in response: all_data.extend(response['data'])\<close>: the items the page
  contributes.
\<close>

definition page_items :: "json \<Rightarrow> error + json list" where
  "page_items response =
     (case py_in ''data'' response of
        Inl e \<Rightarrow> Inl e
      | Inr False \<Rightarrow> Inr []
      | Inr True \<Rightarrow>
          (case py_getitem response ''data'' of
             Inl e \<Rightarrow> Inl e
           | Inr d \<Rightarrow> py_extend [] d))"

text \<open>
  Then the value \<open>current_url\<close> takes:
  \<open>response['links']['next']\<close> when
  \<open>'links' in response and 'next' in response['links'] and response['links']['next']\<close>,
  and \<open>None\<close> otherwise.
\<close>

definition next_link :: "json \<Rightarrow> error + json" where
  "next_link response =
     (case py_in ''links'' response of
        Inl e \<Rightarrow> Inl e
      | Inr False \<Rightarrow> Inr JNull
      | Inr True \<Rightarrow>
          (case py_getitem response ''links'' of
             Inl e \<Rightarrow> Inl e
           | Inr links \<Rightarrow>
               (case py_in ''next'' links of
                  Inl e \<Rightarrow> Inl e
                | Inr False \<Rightarrow> Inr JNull
                | Inr True \<Rightarrow>
                    (case py_getitem links ''next'' of
                       Inl e \<Rightarrow> Inl e
                     | Inr nxt \<Rightarrow> Inr (if truthy nxt then nxt else JNull)))))"

text \<open>
  The \<open>while current_url:\<close> loop of \<open>_paginated_request\<close>, one unit of fuel per test
  of the loop condition (a cyclic chain of next links never ends). The query
  parameters are cleared when the loop continues with a next link.
\<close>

fun paginated_loop ::
  "nat \<Rightarrow> 's client \<Rightarrow> json \<Rightarrow> params \<Rightarrow> json list \<Rightarrow> 's world \<Rightarrow> (json list, 's) outcome" where
  "paginated_loop 0 c current_url ps all_data w = None"
| "paginated_loop (Suc n) c current_url ps all_data w =
     (if \<not> truthy current_url then Some (Inr all_data, w)
      else
        (case make_request n c current_url ps w of
           None \<Rightarrow> None
         | Some (Inl e, w') \<Rightarrow> Some (Inl e, w')
         | Some (Inr response, w') \<Rightarrow>
             (case page_items response of
                Inl e \<Rightarrow> Some (Inl e, w')
              | Inr items \<Rightarrow>
                  (case next_link response of
                     Inl e \<Rightarrow> Some (Inl e, w')
                   | Inr nxt \<Rightarrow>
                       paginated_loop n c nxt (if truthy nxt then None else ps)
                         (all_data @ items) w'))))"

definition paginated_request ::
  "nat \<Rightarrow> 's client \<Rightarrow> string \<Rightarrow> params \<Rightarrow> 's world \<Rightarrow> (json list, 's) outcome" where
  "paginated_request n c url ps w = paginated_loop n c (JStr url) ps [] w"

section \<open>Python dicts keyed by decoded values\<close>

text \<open>
  The collector keys its dicts by the names the remote service delivered. A key must
  be hashable (\<open>None\<close>, a bool, an int or a str; a list or a dict raises
  \<open>TypeError\<close>), and two keys are the same key when they are equal in Python's
  sense, where \<open>True == 1\<close> and \<open>False == 0\<close>. A dict keeps insertion order;
  storing under a key that is already there replaces the value and keeps the key
  object and its place.
\<close>

fun hashable :: "json \<Rightarrow> bool" where
  "hashable (JList xs) = False"
| "hashable (JDict kvs) = False"
| "hashable v = True"

fun key_norm :: "json \<Rightarrow> json" where
  "key_norm (JBool b) = JInt (if b then 1 else 0)"
| "key_norm v = v"

definition py_eq :: "json \<Rightarrow> json \<Rightarrow> bool" where
  "py_eq a b = (key_norm a = key_norm b)"

fun dict_lookup :: "(json \<times> 'v) list \<Rightarrow> json \<Rightarrow> 'v option" where
  "dict_lookup [] k = None"
| "dict_lookup ((k', v') # d) k = (if py_eq k' k then Some v' else dict_lookup d k)"

fun dict_update :: "(json \<times> 'v) list \<Rightarrow> json \<Rightarrow> 'v \<Rightarrow> (json \<times> 'v) list" where
  "dict_update [] k v = [(k, v)]"
| "dict_update ((k', v') # d) k v =
     (if py_eq k' k then (k', v) # d else (k', v') # dict_update d k v)"

text \<open>\<open>d[k] = v\<close>\<close>

definition dict_setitem :: "(json \<times> 'v) list \<Rightarrow> json \<Rightarrow> 'v \<Rightarrow> error + (json \<times> 'v) list" where
  "dict_setitem d k v = (if hashable k then Inr (dict_update d k v) else Inl TypeError)"

section \<open>The collection orchestrator\<close>

text \<open>
  The f-strings that build the URLs format a name or an id with \<open>str()\<close>: a str is
  itself, any other value is what the builtin makes of it.
\<close>

definition py_str :: "'s client \<Rightarrow> json \<Rightarrow> string" where
  "py_str c v = (case v of JStr s \<Rightarrow> s | _ \<Rightarrow> str_builtin c v)"

definition get_organizations :: "nat \<Rightarrow> 's client \<Rightarrow> 's world \<Rightarrow> (json list, 's) outcome" where
  "get_organizations n c w = paginated_request n c (base_url c @ ''/organizations'') None w"

definition get_workspaces_for_organization ::
  "nat \<Rightarrow> 's client \<Rightarrow> json \<Rightarrow> 's world \<Rightarrow> (json list, 's) outcome" where
  "get_workspaces_for_organization n c org_name w =
     paginated_request n c (base_url c @ ''/organizations/'' @ py_str c org_name @ ''/workspaces'')
       (Some [(''include'', ''current-run,organization'')]) w"

definition get_runs_for_workspace ::
  "nat \<Rightarrow> 's client \<Rightarrow> json \<Rightarrow> 's world \<Rightarrow> (json list, 's) outcome" where
  "get_runs_for_workspace n c workspace_id w =
     paginated_request n c (base_url c @ ''/workspaces/'' @ py_str c workspace_id @ ''/runs'')
       (Some [(''include'', ''plan,apply,configuration-version'')]) w"

text \<open>\<open>item['attributes']['name']\<close>\<close>

definition attributes_name :: "json \<Rightarrow> error + json" where
  "attributes_name item =
     (case py_getitem item ''attributes'' of
        Inl e \<Rightarrow> Inl e
      | Inr attrs \<Rightarrow> py_getitem attrs ''name'')"

text \<open>
  Step 2, first loop: the organization names, in order. Creating the coroutine sends
  nothing; a missing attribute raises before any workspace is fetched.
\<close>

fun workspace_tasks :: "json list \<Rightarrow> error + json list" where
  "workspace_tasks [] = Inr []"
| "workspace_tasks (org # orgs) =
     (case attributes_name org of
        Inl e \<Rightarrow> Inl e
      | Inr org_name \<Rightarrow>
          (case workspace_tasks orgs of
             Inl e \<Rightarrow> Inl e
           | Inr tasks \<Rightarrow> Inr (org_name # tasks)))"

text \<open>
  Step 2, second loop: each task is awaited in turn and its result stored under the
  organization's name.
\<close>

fun workspaces_stage ::
  "nat \<Rightarrow> 's client \<Rightarrow> json list \<Rightarrow> (json \<times> json list) list \<Rightarrow> 's world
   \<Rightarrow> ((json \<times> json list) list, 's) outcome" where
  "workspaces_stage n c [] org_workspaces w = Some (Inr org_workspaces, w)"
| "workspaces_stage n c (org_name # tasks) org_workspaces w =
     (case get_workspaces_for_organization n c org_name w of
        None \<Rightarrow> None
      | Some (Inl e, w') \<Rightarrow> Some (Inl e, w')
      | Some (Inr workspaces, w') \<Rightarrow>
          (case dict_setitem org_workspaces org_name workspaces of
             Inl e \<Rightarrow> Some (Inl e, w')
           | Inr org_workspaces' \<Rightarrow> workspaces_stage n c tasks org_workspaces' w'))"

text \<open>
  Step 3, first loops: one task \<open>(org_name, workspace_name, workspace_id)\<close> for
  every workspace of every entry of \<open>org_workspaces\<close>; again nothing is sent yet.
\<close>

fun workspace_run_tasks :: "json \<Rightarrow> json list \<Rightarrow> error + (json \<times> json \<times> json) list" where
  "workspace_run_tasks org_name [] = Inr []"
| "workspace_run_tasks org_name (workspace # rest) =
     (case py_getitem workspace ''id'' of
        Inl e \<Rightarrow> Inl e
      | Inr workspace_id \<Rightarrow>
          (case attributes_name workspace of
             Inl e \<Rightarrow> Inl e
           | Inr workspace_name \<Rightarrow>
               (case workspace_run_tasks org_name rest of
                  Inl e \<Rightarrow> Inl e
                | Inr tasks \<Rightarrow> Inr ((org_name, workspace_name, workspace_id) # tasks))))"

fun run_tasks :: "(json \<times> json list) list \<Rightarrow> error + (json \<times> json \<times> json) list" where
  "run_tasks [] = Inr []"
| "run_tasks ((org_name, workspaces) # rest) =
     (case workspace_run_tasks org_name workspaces of
        Inl e \<Rightarrow> Inl e
      | Inr tasks \<Rightarrow>
          (case run_tasks rest of
             Inl e \<Rightarrow> Inl e
           | Inr tasks' \<Rightarrow> Inr (tasks @ tasks')))"

text \<open>The value stored for a workspace: \<open>{'workspace_id': ..., 'runs': ...}\<close>.\<close>

record workspace_data =
  workspace_id :: json
  runs :: "json list"

type_synonym runs_dict = "(json \<times> (json \<times> workspace_data) list) list"

text \<open>
  \<open>if org_name not in workspace_runs: workspace_runs[org_name] = {}\<close>, then
  \<open>workspace_runs[org_name][workspace_name] = {...}\<close>.
\<close>

definition store_runs :: "runs_dict \<Rightarrow> json \<Rightarrow> json \<Rightarrow> workspace_data \<Rightarrow> error + runs_dict" where
  "store_runs workspace_runs org_name workspace_name entry =
     (if \<not> hashable org_name then Inl TypeError
      else
        let wr = (if dict_lookup workspace_runs org_name = None
                  then dict_update workspace_runs org_name []
                  else workspace_runs)
        in (case dict_lookup wr org_name of
              None \<Rightarrow> Inl KeyError
            | Some org_runs \<Rightarrow>
                (case dict_setitem org_runs workspace_name entry of
                   Inl e \<Rightarrow> Inl e
                 | Inr org_runs' \<Rightarrow> Inr (dict_update wr org_name org_runs'))))"

text \<open>Step 3, second loop: each run task is awaited in turn and its result stored.\<close>

fun runs_stage ::
  "nat \<Rightarrow> 's client \<Rightarrow> (json \<times> json \<times> json) list \<Rightarrow> runs_dict \<Rightarrow> 's world
   \<Rightarrow> (runs_dict, 's) outcome" where
  "runs_stage n c [] workspace_runs w = Some (Inr workspace_runs, w)"
| "runs_stage n c ((org_name, workspace_name, wid) # tasks) workspace_runs w =
     (case get_runs_for_workspace n c wid w of
        None \<Rightarrow> None
      | Some (Inl e, w') \<Rightarrow> Some (Inl e, w')
      | Some (Inr rs, w') \<Rightarrow>
          (case store_runs workspace_runs org_name workspace_name
                  \<lparr>workspace_id = wid, runs = rs\<rparr> of
             Inl e \<Rightarrow> Some (Inl e, w')
           | Inr workspace_runs' \<Rightarrow> runs_stage n c tasks workspace_runs' w'))"

text \<open>The snapshot; the key \<open>'runs'\<close> of the result holds \<open>workspace_runs\<close>.\<close>

record summary =
  total_organizations :: nat
  total_workspaces :: nat
  total_runs :: nat

record snapshot =
  organizations :: "json list"
  workspaces :: "(json \<times> json list) list"
  workspace_runs :: runs_dict
  summary :: summary

text \<open>The three sums of the summary, over the values of the assembled dicts.\<close>

definition count_workspaces :: "(json \<times> json list) list \<Rightarrow> nat" where
  "count_workspaces org_workspaces = sum_list (map (\<lambda>kv. length (snd kv)) org_workspaces)"

definition count_runs :: "runs_dict \<Rightarrow> nat" where
  "count_runs wr =
     sum_list (concat (map (\<lambda>org_runs. map (\<lambda>workspace_data. length (runs (snd workspace_data)))
                                          (snd org_runs)) wr))"

definition get_all_data :: "nat \<Rightarrow> 's client \<Rightarrow> 's world \<Rightarrow> (snapshot, 's) outcome" where
  "get_all_data n c w =
     (case get_organizations n c w of
        None \<Rightarrow> None
      | Some (Inl e, w1) \<Rightarrow> Some (Inl e, w1)
      | Some (Inr orgs, w1) \<Rightarrow>
          (case workspace_tasks orgs of
             Inl e \<Rightarrow> Some (Inl e, w1)
           | Inr tasks \<Rightarrow>
               (case workspaces_stage n c tasks [] w1 of
                  None \<Rightarrow> None
                | Some (Inl e, w2) \<Rightarrow> Some (Inl e, w2)
                | Some (Inr org_workspaces, w2) \<Rightarrow>
                    (case run_tasks org_workspaces of
                       Inl e \<Rightarrow> Some (Inl e, w2)
                     | Inr rtasks \<Rightarrow>
                         (case runs_stage n c rtasks [] w2 of
                            None \<Rightarrow> None
                          | Some (Inl e, w3) \<Rightarrow> Some (Inl e, w3)
                          | Some (Inr wr, w3) \<Rightarrow>
                              Some (Inr \<lparr>organizations = orgs,
                                         workspaces = org_workspaces,
                                         workspace_runs = wr,
                                         summary = \<lparr>total_organizations = length orgs,
                                                    total_workspaces = count_workspaces org_workspaces,
                                                    total_runs = count_runs wr\<rparr>\<rparr>,
                                    w3))))))"

section \<open>Fake responders\<close>

text \<open>
  A scripted remote service: its state is the list of replies still to give, one per
  request whatever the URL; once the script is used up every request is a transport
  fault.
\<close>

definition scripted_get :: "reply list \<Rightarrow> string \<Rightarrow> params \<Rightarrow> reply \<times> reply list" where
  "scripted_get script url ps = (case script of [] \<Rightarrow> (Fault, []) | r # rs \<Rightarrow> (r, rs))"

definition scripted_client :: "reply list client" where
  "scripted_client =
     \<lparr>base_url = ''https://app.terraform.io/api/v2'', session_get = scripted_get,
      str_builtin = (\<lambda>v. ''?'')\<rparr>"

definition ok_reply :: "json \<Rightarrow> reply" where
  "ok_reply body = Reply \<lparr>status = 200, retry_after_header = None, json_body = Some body,
     text_body = Some []\<rparr>"

definition status_reply :: "int \<Rightarrow> string option \<Rightarrow> reply" where
  "status_reply code hdr = Reply \<lparr>status = code, retry_after_header = hdr, json_body = None,
     text_body = Some []\<rparr>"

definition start :: "nat \<Rightarrow> 's \<Rightarrow> 's world" where
  "start permits s = \<lparr>sem_value = permits, remote = s, events = []\<rparr>"

text \<open>A page with the given items and, when given, a next link.\<close>

definition page :: "json list \<Rightarrow> string option \<Rightarrow> json" where
  "page items nxt =
     JDict [(''data'', JList items),
            (''links'', JDict (case nxt of None \<Rightarrow> [] | Some u \<Rightarrow> [(''next'', JStr u)]))]"

section \<open>Vocabulary of the properties\<close>




definition one_call :: "string \<times> params \<Rightarrow> event list" where
  "one_call rq = [Acquire, Get (fst rq) (snd rq), Release]"

text \<open>
  The remote service answers the request for \<open>u\<close> with status 200 and the body
  \<open>p\<close>; the result is its next state.
\<close>

definition serves_page :: "'s client \<Rightarrow> 's \<Rightarrow> string \<Rightarrow> params \<Rightarrow> json \<Rightarrow> 's option" where
  "serves_page c s u ps p =
     (case session_get c s u ps of
        (Fault, s') \<Rightarrow> None
      | (Reply resp, s') \<Rightarrow>
          if status resp = 200 \<and> json_body resp = Some p then Some s' else None)"

text \<open>
  A finite multi-page responder: asked for \<open>u\<close> (not the empty string) with the
  parameters \<open>ps\<close>, the remote service in state \<open>s\<close> serves the given pages in
  this order. Every page but the last carries a next link, a non-empty str, under
  which (with no parameters) the next page is served; the last page carries none, or
  an empty one. Every page's items can be read.
\<close>

fun serves :: "'s client \<Rightarrow> 's \<Rightarrow> string \<Rightarrow> params \<Rightarrow> json list \<Rightarrow> bool" where
  "serves c s u ps [] = False"
| "serves c s u ps (p # rest) =
     (u \<noteq> [] \<and>
      (case serves_page c s u ps p of
         None \<Rightarrow> False
       | Some s' \<Rightarrow>
           (case page_items p of
              Inl e \<Rightarrow> False
            | Inr xs \<Rightarrow>
                (case next_link p of
                   Inl e \<Rightarrow> False
                 | Inr nxt \<Rightarrow>
                     (case rest of
                        [] \<Rightarrow> nxt = JNull
                      | q # qs \<Rightarrow>
                          (case nxt of
                             JStr u' \<Rightarrow> serves c s' u' None rest
                           | _ \<Rightarrow> False))))))"

text \<open>
  The same responder with one rate-limit response: the request for page number \<open>i\<close>
  (counted from 0) is answered first with status 429 and a \<open>Retry-After\<close> header
  that is absent or an integer, and then, asked again, with the page.
\<close>

fun serves_limited :: "'s client \<Rightarrow> 's \<Rightarrow> string \<Rightarrow> params \<Rightarrow> json list \<Rightarrow> nat \<Rightarrow> bool" where
  "serves_limited c s u ps [] i = False"
| "serves_limited c s u ps (p # rest) 0 =
     (case session_get c s u ps of
        (Fault, s0) \<Rightarrow> False
      | (Reply resp, s0) \<Rightarrow>
          status resp = 429 \<and> (case retry_after resp of Inl e \<Rightarrow> False | Inr d \<Rightarrow> True)
          \<and> serves c s0 u ps (p # rest))"
| "serves_limited c s u ps (p # rest) (Suc j) =
     (u \<noteq> [] \<and>
      (case serves_page c s u ps p of
         None \<Rightarrow> False
       | Some s' \<Rightarrow>
           (case page_items p of
              Inl e \<Rightarrow> False
            | Inr xs \<Rightarrow>
                (case next_link p of
                   Inl e \<Rightarrow> False
                 | Inr nxt \<Rightarrow>
                     (case nxt of
                        JStr u' \<Rightarrow> serves_limited c s' u' None rest j
                      | _ \<Rightarrow> False)))))"

text \<open>The items of a page and its next link, where they can be read.\<close>

definition items_of :: "json \<Rightarrow> json list" where
  "items_of p = (case page_items p of Inl e \<Rightarrow> [] | Inr xs \<Rightarrow> xs)"

definition next_url :: "json \<Rightarrow> string" where
  "next_url p = (case next_link p of Inr (JStr u) \<Rightarrow> u | _ \<Rightarrow> [])"

text \<open>
  The requests a walk over the pages makes: the initial URL with the initial
  parameters, then each page's next link with no parameters.
\<close>

definition page_requests :: "string \<Rightarrow> params \<Rightarrow> json list \<Rightarrow> (string \<times> params) list" where
  "page_requests url ps pages = (url, ps) # map (\<lambda>p. (next_url p, None)) (butlast pages)"

text \<open>Scripts for the fake responder.\<close>

definition rate_limited_once :: "reply list" where
  "rate_limited_once = [status_reply 429 (Some ''7''), ok_reply (page [JInt 1] None)]"


text \<open>
  A remote service without state that answers by URL from a table of pages, with
  status 200, and with status 404 for any other URL.
\<close>

definition table_client :: "(string \<times> json) list \<Rightarrow> unit client" where
  "table_client pages =
     \<lparr>base_url = ''https://x'',
      session_get = (\<lambda>s u ps. (case map_of pages u of
                                  None \<Rightarrow> status_reply 404 None
                                | Some p \<Rightarrow> ok_reply p, s)),
      str_builtin = (\<lambda>v. ''?'')\<rparr>"

text \<open>A resource item with an id and a name attribute.\<close>

definition item :: "string \<Rightarrow> string \<Rightarrow> json" where
  "item i nm = JDict [(''id'', JStr i), (''attributes'', JDict [(''name'', JStr nm)])]"

text \<open>
  One organization with two workspaces of the same name; the first has two runs, the
  second has one.
\<close>

definition duplicate_names :: "(string \<times> json) list" where
  "duplicate_names =
     [(''https://x/organizations'', page [item ''org-1'' ''acme''] None),
      (''https://x/organizations/acme/workspaces'',
         page [item ''ws-1'' ''app'', item ''ws-2'' ''app''] None),
      (''https://x/workspaces/ws-1/runs'', page [item ''run-1'' ''a'', item ''run-2'' ''b''] None),
      (''https://x/workspaces/ws-2/runs'', page [item ''run-3'' ''c''] None)]"

text \<open>No organization at all.\<close>

definition no_organizations :: "(string \<times> json) list" where
  "no_organizations = [(''https://x/organizations'', page [] None)]"

definition duplicate_names_snapshot :: snapshot where
  "duplicate_names_snapshot =
     \<lparr>organizations = [item ''org-1'' ''acme''],
      workspaces = [(JStr ''acme'', [item ''ws-1'' ''app'', item ''ws-2'' ''app''])],
      workspace_runs =
        [(JStr ''acme'',
          [(JStr ''app'', \<lparr>workspace_id = JStr ''ws-2'', runs = [item ''run-3'' ''c'']\<rparr>)])],
      summary = \<lparr>total_organizations = 1, total_workspaces = 2, total_runs = 1\<rparr>\<rparr>"

definition empty_snapshot :: snapshot where
  "empty_snapshot =
     \<lparr>organizations = [], workspaces = [], workspace_runs = [],
      summary = \<lparr>total_organizations = 0, total_workspaces = 0, total_runs = 0\<rparr>\<rparr>"

section \<open>Vocabulary of the snapshot properties\<close>

text \<open>No two keys of the dict are the same key.\<close>

definition distinct_keys :: "(json \<times> 'v) list \<Rightarrow> bool" where
  "distinct_keys d = distinct (map (\<lambda>kv. key_norm (fst kv)) d)"

text \<open>\<open>workspace_runs[org_name][workspace_name]\<close>, where both keys are there.\<close>

definition runs_lookup :: "runs_dict \<Rightarrow> json \<Rightarrow> json \<Rightarrow> workspace_data option" where
  "runs_lookup wr org_name workspace_name =
     (case dict_lookup wr org_name of
        None \<Rightarrow> None
      | Some org_runs \<Rightarrow> dict_lookup org_runs workspace_name)"

text \<open>
  The second loop of step 3 taken apart: the fetches alone, in task order, and the
  stores alone, applied to the tasks paired with what was fetched for them.
\<close>

fun fetch_runs ::
  "nat \<Rightarrow> 's client \<Rightarrow> (json \<times> json \<times> json) list \<Rightarrow> 's world \<Rightarrow> (json list list, 's) outcome" where
  "fetch_runs n c [] w = Some (Inr [], w)"
| "fetch_runs n c ((org_name, workspace_name, wid) # tasks) w =
     (case get_runs_for_workspace n c wid w of
        None \<Rightarrow> None
      | Some (Inl e, w') \<Rightarrow> Some (Inl e, w')
      | Some (Inr rs, w') \<Rightarrow>
          (case fetch_runs n c tasks w' of
             None \<Rightarrow> None
           | Some (Inl e, w'') \<Rightarrow> Some (Inl e, w'')
           | Some (Inr rss, w'') \<Rightarrow> Some (Inr (rs # rss), w'')))"

type_synonym run_result = "json \<times> json \<times> json \<times> json list"

fun store_all :: "runs_dict \<Rightarrow> run_result list \<Rightarrow> error + runs_dict" where
  "store_all wr [] = Inr wr"
| "store_all wr ((org_name, workspace_name, wid, rs) # results) =
     (case store_runs wr org_name workspace_name \<lparr>workspace_id = wid, runs = rs\<rparr> of
        Inl e \<Rightarrow> Inl e
      | Inr wr' \<Rightarrow> store_all wr' results)"

definition task_of :: "run_result \<Rightarrow> json \<times> json \<times> json" where
  "task_of r = (fst r, fst (snd r), fst (snd (snd r)))"

definition data_of :: "run_result \<Rightarrow> workspace_data" where
  "data_of r = \<lparr>workspace_id = fst (snd (snd r)), runs = snd (snd (snd r))\<rparr>"

text \<open>The result is for this organization name and this workspace name.\<close>

definition for_workspace :: "json \<Rightarrow> json \<Rightarrow> run_result \<Rightarrow> bool" where
  "for_workspace org_name workspace_name r =
     (py_eq (fst r) org_name \<and> py_eq (fst (snd r)) workspace_name)"

text \<open>The last-processed result for an organization name and a workspace name.\<close>

definition last_result :: "run_result list \<Rightarrow> json \<Rightarrow> json \<Rightarrow> run_result option" where
  "last_result results org_name workspace_name =
     find (for_workspace org_name workspace_name) (rev results)"

text \<open>The runs dict and each of its inner dicts have no key twice.\<close>

definition wf_runs :: "runs_dict \<Rightarrow> bool" where
  "wf_runs wr = (distinct_keys wr \<and> (\<forall>kv \<in> set wr. distinct_keys (snd kv)))"

text \<open>
  The results that no later result for the same organization name and workspace name
  follows.
\<close>

fun retained :: "run_result list \<Rightarrow> run_result list" where
  "retained [] = []"
| "retained (r # rs) =
     (if \<exists>r' \<in> set rs. for_workspace (fst r) (fst (snd r)) r' then retained rs
      else r # retained rs)"

text \<open>Sums over the entries of a dict, and over the entries of the inner dicts of the runs dict.\<close>

definition dict_sum :: "(json \<Rightarrow> 'v \<Rightarrow> nat) \<Rightarrow> (json \<times> 'v) list \<Rightarrow> nat" where
  "dict_sum h d = sum_list (map (\<lambda>kv. h (fst kv) (snd kv)) d)"

definition runs_sum :: "(json \<Rightarrow> json \<Rightarrow> workspace_data \<Rightarrow> nat) \<Rightarrow> runs_dict \<Rightarrow> nat" where
  "runs_sum g wr = dict_sum (\<lambda>org_name org_runs. dict_sum (g org_name) org_runs) wr"

section \<open>The analyzer's input\<close>




section \<open>State bookkeeping\<close>

lemma events_release [simp]: "events (release w) = events w @ [Release]"
  by (simp add: release_def log_event_def)

lemma sem_release [simp]: "sem_value (release w) = Suc (sem_value w)"
  by (simp add: release_def log_event_def)

lemma remote_release [simp]: "remote (release w) = remote w"
  by (simp add: release_def log_event_def)

lemma events_acquire [simp]: "events (acquire w) = events w @ [Acquire]"
  by (simp add: acquire_def log_event_def)

lemma sem_acquire [simp]: "sem_value (acquire w) = sem_value w - 1"
  by (simp add: acquire_def log_event_def)

lemma remote_acquire [simp]: "remote (acquire w) = remote w"
  by (simp add: acquire_def log_event_def)

lemma events_log_event [simp]: "events (log_event e w) = events w @ [e]"
  by (simp add: log_event_def)

lemma sem_log_event [simp]: "sem_value (log_event e w) = sem_value w"
  by (simp add: log_event_def)

lemma remote_log_event [simp]: "remote (log_event e w) = remote w"
  by (simp add: log_event_def)

lemmas fixture_defs = scripted_client_def scripted_get_def status_reply_def ok_reply_def start_def
  page_def acquire_def release_def log_event_def retry_after_def raise_for_status_def

lemma py_int_7: "py_int ''7'' = Some 7"
  by (simp add: py_int_def strip_def is_space_def parse_unsigned_def digit_val_def)

section \<open>The request executor\<close>

lemma make_request_ok:
  assumes "session_get c (remote w) u ps = (Reply resp, s')" "status resp = 200"
    "json_body resp = Some p" "sem_value w \<noteq> 0"
  shows "make_request (Suc m) c (JStr u) ps w
         = Some (Inr p, release (log_event (Get u ps) ((acquire w)\<lparr>remote := s'\<rparr>)))"
  using assms by (simp add: Let_def)








lemma make_request_error_status:
  assumes "session_get c (remote w) u ps = (Reply resp, s')" "400 \<le> status resp"
    "status resp \<noteq> 429" "sem_value w \<noteq> 0"
  shows "\<exists>e. make_request (Suc m) c (JStr u) ps w
           = Some (Inl e, release (log_event (Get u ps) ((acquire w)\<lparr>remote := s'\<rparr>)))"
  using assms by (auto simp: Let_def raise_for_status_def split: option.splits)


text \<open>
  C2: a response with status 204 is neither 200 nor 429, and \<open>raise_for_status\<close>
  raises from 400 on only. The call logs the failure and then returns \<open>None\<close>
  instead of raising.
\<close>

theorem make_request_status_204:
  "make_request 1 scripted_client (JStr ''https://x/organizations'') None
     (start 10 [status_reply 204 None])
   = Some (Inr JNull, \<lparr>sem_value = 10, remote = [],
       events = [Acquire, Get ''https://x/organizations'' None, Release]\<rparr>)"
  by (simp add: fixture_defs)

lemma py_int_http_date: "py_int ''Wed, 21 Oct 2015 07:28:00 GMT'' = None"
  by (simp add: py_int_def strip_def is_space_def parse_unsigned_def digit_val_def)

text \<open>
  C5: a rate-limited response whose \<open>Retry-After\<close> header is an HTTP date. \<open>int\<close>
  raises \<open>ValueError\<close>, the call ends with that error, and there is neither a sleep
  nor a retry: the second reply of the script is never asked for. With no header the
  same call sleeps 5 and retries, and with the header \<open>7\<close> it sleeps 7 and retries.
\<close>

theorem make_request_unparsable_retry_after:
  "make_request 2 scripted_client (JStr ''https://x/organizations'') None
     (start 10 [status_reply 429 (Some ''Wed, 21 Oct 2015 07:28:00 GMT''),
                ok_reply (page [] None)])
   = Some (Inl ValueError, \<lparr>sem_value = 10, remote = [ok_reply (page [] None)],
       events = [Acquire, Get ''https://x/organizations'' None, Release]\<rparr>)
   \<and> make_request 2 scripted_client (JStr ''https://x/organizations'') None
       (start 10 [status_reply 429 None, ok_reply (page [] None)])
     = Some (Inr (page [] None), \<lparr>sem_value = 10, remote = [],
         events = [Acquire, Get ''https://x/organizations'' None, Sleep 5,
                   Acquire, Get ''https://x/organizations'' None, Release, Release]\<rparr>)
   \<and> make_request 2 scripted_client (JStr ''https://x/organizations'') None
       (start 10 [status_reply 429 (Some ''7''), ok_reply (page [] None)])
     = Some (Inr (page [] None), \<lparr>sem_value = 10, remote = [],
         events = [Acquire, Get ''https://x/organizations'' None, Sleep 7,
                   Acquire, Get ''https://x/organizations'' None, Release, Release]\<rparr>)"
  by (simp add: fixture_defs py_int_http_date py_int_7 numeral_2_eq_2)

section \<open>The pager\<close>

lemma page_items_page [simp]: "page_items (page xs nxt) = Inr xs"
  by (simp add: page_items_def page_def)

lemma next_link_page_None [simp]: "next_link (page xs None) = Inr JNull"
  by (simp add: next_link_def page_def)

lemma next_link_page_Some [simp]:
  "next_link (page xs (Some u)) = Inr (if u = [] then JNull else JStr u)"
  by (simp add: next_link_def page_def)

lemma paginated_loop_done:
  "\<not> truthy nxt \<Longrightarrow> paginated_loop (Suc n) c nxt ps acc w = Some (Inr acc, w)"
  by simp

lemma next_link_truthy: "next_link p = Inr nxt \<Longrightarrow> nxt \<noteq> JNull \<Longrightarrow> truthy nxt"
  by (auto simp: next_link_def split: sum.splits bool.splits if_splits)

lemma paginated_loop_serves:
  "serves c (remote w) u ps pages \<Longrightarrow> sem_value w \<noteq> 0 \<Longrightarrow> length pages < n \<Longrightarrow>
   \<exists>w'. paginated_loop n c (JStr u) ps acc w = Some (Inr (acc @ concat (map items_of pages)), w')
       \<and> events w' = events w @ concat (map one_call (page_requests u ps pages))
       \<and> sem_value w' = sem_value w"
proof (induction pages arbitrary: n u ps acc w)
  case Nil
  then show ?case by simp
next
  case (Cons p rest)
  from Cons.prems(3) obtain m where n: "n = Suc (Suc m)" and m: "length rest \<le> m"
    by (cases n; cases "n - 1") auto
  from Cons.prems(1) obtain s' xs nxt where
    u: "u \<noteq> []" and sp: "serves_page c (remote w) u ps p = Some s'"
    and pi: "page_items p = Inr xs" and nl: "next_link p = Inr nxt"
    and rest: "(case rest of [] \<Rightarrow> nxt = JNull
                | q # qs \<Rightarrow> (case nxt of JStr u' \<Rightarrow> serves c s' u' None rest | _ \<Rightarrow> False))"
    by (auto split: option.splits sum.splits)
  from sp obtain resp where g: "session_get c (remote w) u ps = (Reply resp, s')"
    and st: "status resp = 200" and jb: "json_body resp = Some p"
    by (auto simp: serves_page_def split: prod.splits reply.splits if_splits)
  define w1 where "w1 = release (log_event (Get u ps) ((acquire w)\<lparr>remote := s'\<rparr>))"
  have mr: "make_request (Suc m) c (JStr u) ps w = Some (Inr p, w1)"
    unfolding w1_def using g st jb Cons.prems(2) by (rule make_request_ok)
  have ev1: "events w1 = events w @ one_call (u, ps)" and sem1: "sem_value w1 = sem_value w"
    and rem1: "remote w1 = s'"
    using Cons.prems(2) by (simp_all add: w1_def one_call_def)
  have step: "paginated_loop n c (JStr u) ps acc w
        = paginated_loop (Suc m) c nxt (if truthy nxt then None else ps) (acc @ xs) w1"
    using u mr pi nl by (simp add: n)
  have it: "items_of p = xs" by (simp add: items_of_def pi)
  show ?case
  proof (cases rest)
    case Nil
    with rest have "nxt = JNull" by simp
    then show ?thesis
      using step ev1 sem1 it Nil by (simp add: page_requests_def)
  next
    case (Cons q qs)
    with rest obtain u' where nxt: "nxt = JStr u'" and sv: "serves c s' u' None rest"
      by (auto split: json.splits)
    have tr: "truthy nxt" using nl nxt by (auto dest: next_link_truthy)
    have nu: "next_url p = u'" by (simp add: next_url_def nl nxt)
    from sv rem1 have sv': "serves c (remote w1) u' None rest" by simp
    have "length rest < Suc m" using m by simp
    from Cons.IH[OF sv' _ this, of "acc @ xs"] sem1 Cons.prems(2)
    obtain w' where
      r: "paginated_loop (Suc m) c (JStr u') None (acc @ xs) w1
            = Some (Inr ((acc @ xs) @ concat (map items_of rest)), w')"
      and ev: "events w' = events w1 @ concat (map one_call (page_requests u' None rest))"
      and sem: "sem_value w' = sem_value w1"
      by auto
    have pr: "page_requests u ps (p # rest) = (u, ps) # page_requests u' None rest"
      using Cons nu by (simp add: page_requests_def)
    show ?thesis
      using step r ev sem ev1 sem1 it nxt tr pr by simp
  qed
qed

lemma make_request_limited_once:
  assumes g1: "session_get c (remote w) u ps = (Reply resp, s0)" and st: "status resp = 429"
    and ra: "retry_after resp = Inr d"
    and g2: "session_get c s0 u ps = (Reply resp', s')" and st': "status resp' = 200"
    and jb: "json_body resp' = Some p" and sem: "2 \<le> sem_value w"
  shows "\<exists>w'. make_request (Suc (Suc m)) c (JStr u) ps w = Some (Inr p, w')
           \<and> remote w' = s' \<and> sem_value w' = sem_value w"
proof -
  define w2 where "w2 = log_event (Sleep d) (log_event (Get u ps) ((acquire w)\<lparr>remote := s0\<rparr>))"
  have r2: "remote w2 = s0" and s2: "sem_value w2 \<noteq> 0"
    using sem by (simp_all add: w2_def)
  from g2 r2 have g2': "session_get c (remote w2) u ps = (Reply resp', s')" by simp
  have inner: "make_request (Suc m) c (JStr u) ps w2
        = Some (Inr p, release (log_event (Get u ps) ((acquire w2)\<lparr>remote := s'\<rparr>)))"
    using g2' st' jb s2 by (rule make_request_ok)
  have "make_request (Suc (Suc m)) c (JStr u) ps w
        = Some (Inr p, release (release (log_event (Get u ps) ((acquire w2)\<lparr>remote := s'\<rparr>))))"
    using g1 st ra sem inner unfolding w2_def
    by (simp add: Let_def del: make_request.simps(2) add: make_request.simps(2)[of "Suc m" c "JStr u" ps w])
  moreover have "sem_value (release (release (log_event (Get u ps) ((acquire w2)\<lparr>remote := s'\<rparr>))))
                 = sem_value w"
    using sem by (simp add: w2_def)
  ultimately show ?thesis by simp
qed

lemma paginated_loop_serves_limited:
  "serves_limited c (remote w) u ps pages i \<Longrightarrow> 2 \<le> sem_value w \<Longrightarrow> Suc (length pages) < n \<Longrightarrow>
   \<exists>w'. paginated_loop n c (JStr u) ps acc w = Some (Inr (acc @ concat (map items_of pages)), w')
       \<and> sem_value w' = sem_value w"
proof (induction pages arbitrary: n u ps acc w i)
  case Nil
  then show ?case by simp
next
  case (Cons p rest)
  from Cons.prems(3) obtain m where n: "n = Suc (Suc (Suc m))" and m: "length rest \<le> m"
    by (cases n; cases "n - 1"; cases "n - 2") auto
  show ?case
  proof (cases i)
    case 0
    with Cons.prems(1) obtain resp s0 d where
      g1: "session_get c (remote w) u ps = (Reply resp, s0)" and st: "status resp = 429"
      and ra: "retry_after resp = Inr d" and sv: "serves c s0 u ps (p # rest)"
      by (auto split: prod.splits reply.splits sum.splits)
    from sv obtain s' xs nxt where
      u: "u \<noteq> []" and sp: "serves_page c s0 u ps p = Some s'"
      and pi: "page_items p = Inr xs" and nl: "next_link p = Inr nxt"
      and rest: "(case rest of [] \<Rightarrow> nxt = JNull
                | q # qs \<Rightarrow> (case nxt of JStr u' \<Rightarrow> serves c s' u' None rest | _ \<Rightarrow> False))"
      by (auto split: option.splits sum.splits)
    from sp obtain resp' where g2: "session_get c s0 u ps = (Reply resp', s')"
      and st': "status resp' = 200" and jb: "json_body resp' = Some p"
      by (auto simp: serves_page_def split: prod.splits reply.splits if_splits)
    from make_request_limited_once[OF g1 st ra g2 st' jb Cons.prems(2), of m] obtain w1 where
      mr: "make_request (Suc (Suc m)) c (JStr u) ps w = Some (Inr p, w1)"
      and rem1: "remote w1 = s'" and sem1: "sem_value w1 = sem_value w"
      by blast
    have step: "paginated_loop n c (JStr u) ps acc w
        = paginated_loop (Suc (Suc m)) c nxt (if truthy nxt then None else ps) (acc @ xs) w1"
      using u mr pi nl unfolding n
      by (simp del: make_request.simps paginated_loop.simps(2)
          add: paginated_loop.simps(2)[of "Suc (Suc m)" c "JStr u" ps acc w])
    have it: "items_of p = xs" by (simp add: items_of_def pi)
    show ?thesis
    proof (cases rest)
      case Nil
      with rest have "nxt = JNull" by simp
      then have "paginated_loop n c (JStr u) ps acc w = Some (Inr (acc @ xs), w1)"
        using step by (simp del: make_request.simps)
      then show ?thesis using sem1 it Nil by simp
    next
      case (Cons q qs)
      with rest obtain u' where nxt: "nxt = JStr u'" and sv': "serves c s' u' None rest"
        by (auto split: json.splits)
      have tr: "truthy nxt" using nl nxt by (auto dest: next_link_truthy)
      from sv' rem1 have sv'': "serves c (remote w1) u' None rest" by simp
      have s1: "sem_value w1 \<noteq> 0" using sem1 Cons.prems(2) by simp
      have "length rest < Suc (Suc m)" using m by simp
      from paginated_loop_serves[OF sv'' s1 this, of "acc @ xs"] obtain w' where
        "paginated_loop (Suc (Suc m)) c (JStr u') None (acc @ xs) w1
            = Some (Inr ((acc @ xs) @ concat (map items_of rest)), w')"
        "sem_value w' = sem_value w1"
        by blast
      then show ?thesis using step sem1 it nxt tr
        by (simp del: make_request.simps paginated_loop.simps)
    qed
  next
    case (Suc j)
    with Cons.prems(1) obtain s' xs u' where
      u: "u \<noteq> []" and sp: "serves_page c (remote w) u ps p = Some s'"
      and pi: "page_items p = Inr xs" and nl: "next_link p = Inr (JStr u')"
      and sl: "serves_limited c s' u' None rest j"
      by (auto split: option.splits sum.splits json.splits)
    from sp obtain resp where g: "session_get c (remote w) u ps = (Reply resp, s')"
      and st: "status resp = 200" and jb: "json_body resp = Some p"
      by (auto simp: serves_page_def split: prod.splits reply.splits if_splits)
    have s0: "sem_value w \<noteq> 0" using Cons.prems(2) by simp
    define w1 where "w1 = release (log_event (Get u ps) ((acquire w)\<lparr>remote := s'\<rparr>))"
    have mr: "make_request (Suc (Suc m)) c (JStr u) ps w = Some (Inr p, w1)"
      unfolding w1_def using g st jb s0 by (rule make_request_ok)
    have sem1: "sem_value w1 = sem_value w" and rem1: "remote w1 = s'"
      using s0 by (simp_all add: w1_def)
    have tr: "truthy (JStr u')" using nl by (auto dest: next_link_truthy)
    have step: "paginated_loop n c (JStr u) ps acc w
        = paginated_loop (Suc (Suc m)) c (JStr u') None (acc @ xs) w1"
      using u mr pi nl tr unfolding n
      by (simp del: make_request.simps paginated_loop.simps(2)
          add: paginated_loop.simps(2)[of "Suc (Suc m)" c "JStr u" ps acc w])
    have it: "items_of p = xs" by (simp add: items_of_def pi)
    from sl have "rest \<noteq> []" by (cases rest) auto
    from sl rem1 have sl': "serves_limited c (remote w1) u' None rest j" by simp
    have s1: "2 \<le> sem_value w1" using sem1 Cons.prems(2) by simp
    have "Suc (length rest) < Suc (Suc m)" using m by simp
    from Cons.IH[OF sl' s1 this, of "acc @ xs"] obtain w' where
      "paginated_loop (Suc (Suc m)) c (JStr u') None (acc @ xs) w1
          = Some (Inr ((acc @ xs) @ concat (map items_of rest)), w')"
      "sem_value w' = sem_value w1"
      by blast
    then show ?thesis using step sem1 it
      by (simp del: make_request.simps paginated_loop.simps)
  qed
qed

lemma paginated_request_limited_same_items:
  assumes "serves_limited c (remote w) url ps pages i" and "2 \<le> sem_value w"
    and "Suc (length pages) < n"
  shows "\<exists>w'. paginated_request n c url ps w = Some (Inr (concat (map items_of pages)), w')"
  using paginated_loop_serves_limited[OF assms, of "[]"] by (auto simp: paginated_request_def)

text \<open>
  C4: with one permit in the pool (\<open>--max-concurrent 1\<close>), a page whose first
  response is rate-limited is never delivered, whatever the fuel: the retry waits
  for the permit that the waiting call itself holds. The same page without the
  rate-limit response, and the same script with two permits, both deliver the item
  (with two permits free the items are those of the pages whichever page is
  rate-limited once, as the lemma before this one shows).
\<close>

theorem paginated_request_rate_limited_one_permit:
  "paginated_request n scripted_client ''https://x/organizations'' None
     (start 1 rate_limited_once) = None
   \<and> paginated_request 3 scripted_client ''https://x/organizations'' None
       (start 1 [ok_reply (page [JInt 1] None)])
     = Some (Inr [JInt 1], \<lparr>sem_value = 1, remote = [],
         events = [Acquire, Get ''https://x/organizations'' None, Release]\<rparr>)
   \<and> paginated_request 4 scripted_client ''https://x/organizations'' None
       (start 2 rate_limited_once)
     = Some (Inr [JInt 1], \<lparr>sem_value = 2, remote = [],
         events = [Acquire, Get ''https://x/organizations'' None, Sleep 7,
                   Acquire, Get ''https://x/organizations'' None, Release, Release]\<rparr>)"
proof -
  have "paginated_request n scripted_client ''https://x/organizations'' None
     (start 1 rate_limited_once) = None"
    by (cases n; cases "n - 1"; cases "n - 2")
       (simp_all add: paginated_request_def rate_limited_once_def fixture_defs py_int_7)
  moreover have "paginated_request 3 scripted_client ''https://x/organizations'' None
       (start 1 [ok_reply (page [JInt 1] None)])
     = Some (Inr [JInt 1], \<lparr>sem_value = 1, remote = [],
         events = [Acquire, Get ''https://x/organizations'' None, Release]\<rparr>)"
    by (simp add: paginated_request_def scripted_client_def scripted_get_def ok_reply_def
        start_def acquire_def release_def log_event_def numeral_3_eq_3)
  moreover have "paginated_request 4 scripted_client ''https://x/organizations'' None
       (start 2 rate_limited_once)
     = Some (Inr [JInt 1], \<lparr>sem_value = 2, remote = [],
         events = [Acquire, Get ''https://x/organizations'' None, Sleep 7,
                   Acquire, Get ''https://x/organizations'' None, Release, Release]\<rparr>)"
    by (simp add: paginated_request_def rate_limited_once_def scripted_client_def
        scripted_get_def ok_reply_def status_reply_def retry_after_def py_int_7
        start_def acquire_def release_def log_event_def eval_nat_numeral)
  ultimately show ?thesis by blast
qed


lemma items_of_page [simp]: "items_of (page xs nxt) = xs"
  by (simp add: items_of_def)





section \<open>The collection orchestrator\<close>

lemmas collector_defs = get_all_data_def get_organizations_def get_workspaces_for_organization_def
  get_runs_for_workspace_def paginated_request_def table_client_def item_def attributes_name_def
  py_str_def dict_setitem_def store_runs_def py_eq_def count_workspaces_def count_runs_def

lemma no_organizations_run:
  "get_all_data 2 (table_client no_organizations) (start 10 ())
   = Some (Inr empty_snapshot, \<lparr>sem_value = 10, remote = (),
        events = [Acquire, Get ''https://x/organizations'' None, Release]\<rparr>)"
  by (simp add: collector_defs no_organizations_def empty_snapshot_def numeral_2_eq_2
      ok_reply_def start_def acquire_def release_def log_event_def)

lemma no_organizations_fetch:
  "get_organizations 2 (table_client no_organizations) (start 10 ())
   = Some (Inr [], \<lparr>sem_value = 10, remote = (),
        events = [Acquire, Get ''https://x/organizations'' None, Release]\<rparr>)"
  by (simp add: collector_defs no_organizations_def numeral_2_eq_2
      ok_reply_def start_def acquire_def release_def log_event_def)

lemma duplicate_names_run:
  "get_all_data 2 (table_client duplicate_names) (start 10 ())
   = Some (Inr duplicate_names_snapshot, \<lparr>sem_value = 10, remote = (),
      events =
        [Acquire, Get ''https://x/organizations'' None, Release, Acquire,
         Get ''https://x/organizations/acme/workspaces''
          (Some [(''include'', ''current-run,organization'')]),
         Release, Acquire,
         Get ''https://x/workspaces/ws-1/runs''
          (Some [(''include'', ''plan,apply,configuration-version'')]),
         Release, Acquire,
         Get ''https://x/workspaces/ws-2/runs''
          (Some [(''include'', ''plan,apply,configuration-version'')]),
         Release]\<rparr>)"
  by (simp add: collector_defs duplicate_names_def duplicate_names_snapshot_def numeral_2_eq_2
      ok_reply_def start_def acquire_def release_def log_event_def)

lemma sum_list_concat_map: "sum_list (concat xss) = sum_list (map sum_list (xss :: nat list list))"
  by (induction xss) simp_all

text \<open>
  C3: in every snapshot \<open>get_all_data\<close> returns, the three counts of the summary are
  the length of the organizations sequence, the sum of the lengths of the workspace
  lists of the workspaces mapping, and the sum of the lengths of the run lists of the
  runs mapping. With no organization the three counts are zero and the final state is
  the one the organizations fetch left: no request for workspaces or runs was made.
\<close>

theorem get_all_data_summary:
  assumes "get_all_data n c w = Some (Inr snap, w')"
  shows "total_organizations (summary snap) = length (organizations snap)
       \<and> total_workspaces (summary snap)
           = sum_list (map (\<lambda>(org_name, ws). length ws) (workspaces snap))
       \<and> total_runs (summary snap)
           = sum_list (map (\<lambda>(org_name, org_runs).
                              sum_list (map (\<lambda>(workspace_name, d). length (runs d)) org_runs))
                           (workspace_runs snap))
       \<and> (organizations snap = [] \<longrightarrow>
            summary snap = \<lparr>total_organizations = 0, total_workspaces = 0, total_runs = 0\<rparr>
            \<and> get_organizations n c w = Some (Inr [], w'))"
proof -
  from assms obtain orgs w1 tasks ows w2 rtasks wr where
    o: "get_organizations n c w = Some (Inr orgs, w1)"
    and t: "workspace_tasks orgs = Inr tasks"
    and ws: "workspaces_stage n c tasks [] w1 = Some (Inr ows, w2)"
    and rt: "run_tasks ows = Inr rtasks"
    and rs: "runs_stage n c rtasks [] w2 = Some (Inr wr, w')"
    and snap: "snap = \<lparr>organizations = orgs, workspaces = ows, workspace_runs = wr,
        summary = \<lparr>total_organizations = length orgs, total_workspaces = count_workspaces ows,
                   total_runs = count_runs wr\<rparr>\<rparr>"
    by (auto simp: get_all_data_def split: option.splits sum.splits prod.splits)
  have a: "total_organizations (summary snap) = length (organizations snap)"
    by (simp add: snap)
  have b: "total_workspaces (summary snap)
           = sum_list (map (\<lambda>(org_name, ws). length ws) (workspaces snap))"
    by (simp add: snap count_workspaces_def case_prod_unfold)
  have c: "total_runs (summary snap)
           = sum_list (map (\<lambda>(org_name, org_runs).
                              sum_list (map (\<lambda>(workspace_name, d). length (runs d)) org_runs))
                           (workspace_runs snap))"
    by (simp add: snap count_runs_def sum_list_concat_map comp_def case_prod_unfold)
  have d: "summary snap = \<lparr>total_organizations = 0, total_workspaces = 0, total_runs = 0\<rparr>
            \<and> get_organizations n c w = Some (Inr [], w')" if e: "organizations snap = []"
  proof -
    from e snap have "orgs = []" by simp
    with t have "tasks = []" by simp
    with ws have "ows = []" "w2 = w1" by simp_all
    with rt have "rtasks = []" by simp
    with rs \<open>w2 = w1\<close> have "wr = []" "w' = w1" by simp_all
    with \<open>orgs = []\<close> \<open>ows = []\<close> o snap show ?thesis
      by (simp add: count_workspaces_def count_runs_def)
  qed
  from a b c d show ?thesis by blast
qed

theorem get_all_data_summary_witness:
  "(\<exists>w'. get_all_data 2 (table_client no_organizations) (start 10 ()) = Some (Inr empty_snapshot, w')
      \<and> get_organizations 2 (table_client no_organizations) (start 10 ()) = Some (Inr [], w'))
   \<and> summary empty_snapshot = \<lparr>total_organizations = 0, total_workspaces = 0, total_runs = 0\<rparr>
   \<and> (\<exists>w'. get_all_data 2 (table_client duplicate_names) (start 10 ())
            = Some (Inr duplicate_names_snapshot, w'))
   \<and> total_organizations (summary duplicate_names_snapshot) = 1
   \<and> total_workspaces (summary duplicate_names_snapshot) = 2
   \<and> total_runs (summary duplicate_names_snapshot) = 1"
proof -
  have e: "organizations empty_snapshot = []" by (simp add: empty_snapshot_def)
  from get_all_data_summary [OF no_organizations_run] e
  have "summary empty_snapshot = \<lparr>total_organizations = 0, total_workspaces = 0, total_runs = 0\<rparr>"
    and "get_organizations 2 (table_client no_organizations) (start 10 ())
         = Some (Inr [], \<lparr>sem_value = 10, remote = (),
              events = [Acquire, Get ''https://x/organizations'' None, Release]\<rparr>)"
    by blast+
  moreover from get_all_data_summary [OF duplicate_names_run]
  have "total_organizations (summary duplicate_names_snapshot) = 1"
    "total_workspaces (summary duplicate_names_snapshot) = 2"
    "total_runs (summary duplicate_names_snapshot) = 1"
    by (simp_all add: duplicate_names_snapshot_def)
  ultimately show ?thesis
    using no_organizations_run duplicate_names_run by simp
qed

section \<open>Dicts keyed by decoded values\<close>

lemma py_eq_refl [simp]: "py_eq a a"
  by (simp add: py_eq_def)

lemma py_eq_sym: "py_eq a b \<Longrightarrow> py_eq b a"
  by (simp add: py_eq_def)

lemma py_eq_trans: "py_eq a b \<Longrightarrow> py_eq b c \<Longrightarrow> py_eq a c"
  by (simp add: py_eq_def)

lemma py_eq_left: "py_eq a b \<Longrightarrow> py_eq a c = py_eq b c"
  by (simp add: py_eq_def)

lemma py_eq_right: "py_eq a b \<Longrightarrow> py_eq c a = py_eq c b"
  by (simp add: py_eq_def)

lemma dict_lookup_update:
  "dict_lookup (dict_update d k v) k' = (if py_eq k k' then Some v else dict_lookup d k')"
  by (induction d) (auto simp: py_eq_def)

lemma dict_lookup_cong: "py_eq k k' \<Longrightarrow> dict_lookup d k = dict_lookup d k'"
  by (induction d) (auto simp: py_eq_def)

lemma norm_keys_update:
  "map (\<lambda>kv. key_norm (fst kv)) (dict_update d k v)
   = (if key_norm k \<in> set (map (\<lambda>kv. key_norm (fst kv)) d)
      then map (\<lambda>kv. key_norm (fst kv)) d
      else map (\<lambda>kv. key_norm (fst kv)) d @ [key_norm k])"
  by (induction d) (force simp: py_eq_def)+

lemma distinct_keys_update: "distinct_keys d \<Longrightarrow> distinct_keys (dict_update d k v)"
  by (simp add: distinct_keys_def norm_keys_update)

lemma distinct_keys_Nil [simp]: "distinct_keys []"
  by (simp add: distinct_keys_def)

lemma dict_lookup_mem: "distinct_keys d \<Longrightarrow> (k, v) \<in> set d \<Longrightarrow> dict_lookup d k = Some v"
  by (induction d) (force simp: distinct_keys_def py_eq_def)+

lemma dict_lookup_Some: "dict_lookup d k = Some v \<Longrightarrow> \<exists>k'. (k', v) \<in> set d \<and> py_eq k' k"
  by (induction d) (auto split: if_splits)

lemma distinct_keys_same:
  "distinct_keys d \<Longrightarrow> (k, v) \<in> set d \<Longrightarrow> (k', v') \<in> set d \<Longrightarrow> py_eq k k' \<Longrightarrow> k = k' \<and> v = v'"
proof -
  assume d: "distinct_keys d" and m: "(k, v) \<in> set d" "(k', v') \<in> set d" and e: "py_eq k k'"
  from d have "inj_on (\<lambda>kv. key_norm (fst kv)) (set d)"
    by (simp add: distinct_keys_def distinct_map)
  from inj_onD[OF this, of "(k, v)" "(k', v')"] m e have "(k, v) = (k', v')"
    by (simp add: py_eq_def)
  then show ?thesis by simp
qed

lemma set_dict_update:
  "(k', v') \<in> set (dict_update d k v) \<Longrightarrow> (k', v') \<in> set d \<or> (v' = v \<and> (k' = k \<or> k' \<in> fst ` set d))"
  by (induction d) (force split: if_splits)+

section \<open>Storing the runs\<close>

lemma find_append_: "find P (xs @ ys) = (case find P xs of None \<Rightarrow> find P ys | Some x \<Rightarrow> Some x)"
  by (induction xs) auto

lemma runs_lookup_store:
  assumes "store_runs wr org nm e = Inr wr'"
  shows "runs_lookup wr' org' nm'
         = (if py_eq org org' \<and> py_eq nm nm' then Some e else runs_lookup wr org' nm')"
proof (cases "dict_lookup wr org")
  case None
  with assms have wr': "wr' = dict_update (dict_update wr org []) org [(nm, e)]"
    by (auto simp: store_runs_def dict_setitem_def dict_lookup_update split: if_splits)
  show ?thesis
  proof (cases "py_eq org org'")
    case True
    then have "dict_lookup wr org' = None" using None dict_lookup_cong by metis
    with True show ?thesis by (simp add: wr' runs_lookup_def dict_lookup_update)
  next
    case False
    then show ?thesis by (simp add: wr' runs_lookup_def dict_lookup_update)
  qed
next
  case (Some m)
  with assms have wr': "wr' = dict_update wr org (dict_update m nm e)"
    by (auto simp: store_runs_def dict_setitem_def split: if_splits)
  show ?thesis
  proof (cases "py_eq org org'")
    case True
    then have "dict_lookup wr org' = Some m" using Some dict_lookup_cong by metis
    with True show ?thesis by (simp add: wr' runs_lookup_def dict_lookup_update)
  next
    case False
    then show ?thesis by (simp add: wr' runs_lookup_def dict_lookup_update)
  qed
qed

lemma store_runs_shape:
  assumes "store_runs wr org nm e = Inr wr'"
  shows "\<exists>wr1 m. wr' = dict_update wr1 org (dict_update m nm e) \<and> dict_lookup wr1 org = Some m
           \<and> (wr1 = wr \<or> (wr1 = dict_update wr org [] \<and> m = []))"
proof (cases "dict_lookup wr org")
  case None
  with assms have "wr' = dict_update (dict_update wr org []) org (dict_update [] nm e)"
    by (auto simp: store_runs_def dict_setitem_def dict_lookup_update split: if_splits)
  moreover have "dict_lookup (dict_update wr org []) org = Some []"
    by (simp add: dict_lookup_update)
  ultimately show ?thesis by blast
next
  case (Some m)
  with assms have "wr' = dict_update wr org (dict_update m nm e)"
    by (auto simp: store_runs_def dict_setitem_def split: if_splits)
  with Some show ?thesis by blast
qed

lemma wf_runs_update:
  "wf_runs wr \<Longrightarrow> distinct_keys m \<Longrightarrow> wf_runs (dict_update wr org m)"
  unfolding wf_runs_def
  by (auto simp: distinct_keys_update dest!: set_dict_update)

lemma wf_runs_lookup: "wf_runs wr \<Longrightarrow> dict_lookup wr org = Some m \<Longrightarrow> distinct_keys m"
  unfolding wf_runs_def by (auto dest!: dict_lookup_Some)

lemma wf_runs_store:
  assumes "store_runs wr org nm e = Inr wr'" and "wf_runs wr"
  shows "wf_runs wr'"
proof -
  from store_runs_shape[OF assms(1)] obtain wr1 m where
    s: "wr' = dict_update wr1 org (dict_update m nm e)" "dict_lookup wr1 org = Some m"
       "wr1 = wr \<or> (wr1 = dict_update wr org [] \<and> m = [])"
    by blast
  from s(3) assms(2) have w1: "wf_runs wr1"
    by (auto intro: wf_runs_update)
  from wf_runs_lookup[OF w1 s(2)] have "distinct_keys (dict_update m nm e)"
    by (rule distinct_keys_update)
  with w1 show ?thesis unfolding s(1) by (rule wf_runs_update)
qed

lemma keys_dict_update: "fst ` set (dict_update d k v) \<subseteq> insert k (fst ` set d)"
  by (induction d) (force split: if_splits)+

lemma keys_store:
  assumes "store_runs wr org nm e = Inr wr'"
  shows "fst ` set wr' \<subseteq> insert org (fst ` set wr)"
proof -
  from store_runs_shape[OF assms] obtain wr1 m where
    s: "wr' = dict_update wr1 org (dict_update m nm e)"
       "wr1 = wr \<or> (wr1 = dict_update wr org [] \<and> m = [])"
    by blast
  have "fst ` set wr1 \<subseteq> insert org (fst ` set wr)"
    using s(2) keys_dict_update[of wr org "[]"] by auto
  with keys_dict_update[of wr1 org "dict_update m nm e"] show ?thesis
    unfolding s(1) by blast
qed

lemma last_result_Cons:
  "last_result (r # rs) org nm
   = (case last_result rs org nm of
        Some x \<Rightarrow> Some x
      | None \<Rightarrow> if for_workspace org nm r then Some r else None)"
  by (simp add: last_result_def find_append_ split: option.splits)

lemma store_all_lookup:
  "store_all wr results = Inr wr' \<Longrightarrow>
   runs_lookup wr' org nm
   = (case last_result results org nm of
        Some r \<Rightarrow> Some (data_of r)
      | None \<Rightarrow> runs_lookup wr org nm)"
proof (induction results arbitrary: wr)
  case Nil
  then show ?case by (simp add: last_result_def)
next
  case (Cons r rs)
  obtain o' n' wid rr where r: "r = (o', n', wid, rr)" by (cases r)
  from Cons.prems r obtain wr1 where
    st: "store_runs wr o' n' \<lparr>workspace_id = wid, runs = rr\<rparr> = Inr wr1"
    and rest: "store_all wr1 rs = Inr wr'"
    by (auto split: sum.splits)
  show ?case
    unfolding Cons.IH[OF rest] last_result_Cons runs_lookup_store[OF st]
    by (auto simp: r for_workspace_def data_of_def split: option.splits)
qed

lemma store_all_wf: "store_all wr results = Inr wr' \<Longrightarrow> wf_runs wr \<Longrightarrow> wf_runs wr'"
proof (induction results arbitrary: wr)
  case Nil
  then show ?case by simp
next
  case (Cons r rs)
  obtain o' n' wid rr where r: "r = (o', n', wid, rr)" by (cases r)
  from Cons.prems(1) r obtain wr1 where
    st: "store_runs wr o' n' \<lparr>workspace_id = wid, runs = rr\<rparr> = Inr wr1"
    and rest: "store_all wr1 rs = Inr wr'"
    by (auto split: sum.splits)
  from wf_runs_store[OF st Cons.prems(2)] Cons.IH[OF rest] show ?case by simp
qed

lemma subset_chain: "A1 \<subseteq> insert x A \<Longrightarrow> A' \<subseteq> A1 \<union> R \<Longrightarrow> A' \<subseteq> A \<union> insert x R"
  by blast
lemma store_all_keys:
  "store_all wr results = Inr wr' \<Longrightarrow> fst ` set wr' \<subseteq> fst ` set wr \<union> fst ` set results"
proof (induction results arbitrary: wr)
  case Nil
  then show ?case by simp
next
  case (Cons r rs)
  obtain o' n' wid rr where r: "r = (o', n', wid, rr)" by (cases r)
  from Cons.prems(1) r obtain wr1 where
    st: "store_runs wr o' n' \<lparr>workspace_id = wid, runs = rr\<rparr> = Inr wr1"
    and rest: "store_all wr1 rs = Inr wr'"
    by (auto split: sum.splits)
  have a: "fst ` set wr1 \<subseteq> insert o' (fst ` set wr)" by (rule keys_store[OF st])
  have b: "fst ` set wr' \<subseteq> fst ` set wr1 \<union> fst ` set rs" by (rule Cons.IH[OF rest])
  have c: "fst ` set (r # rs) = insert o' (fst ` set rs)" by (simp add: r)
  show ?case unfolding c by (rule subset_chain[OF a b])
qed

lemma runs_stage_split:
  "runs_stage n c tasks wr w = Some (Inr wr', w') \<Longrightarrow>
   \<exists>results. map task_of results = tasks
     \<and> fetch_runs n c tasks w = Some (Inr (map (\<lambda>r. runs (data_of r)) results), w')
     \<and> store_all wr results = Inr wr'"
proof (induction tasks arbitrary: wr w)
  case Nil
  then show ?case by simp
next
  case (Cons t tasks)
  obtain o' n' wid where t: "t = (o', n', wid)" by (cases t)
  from Cons.prems t obtain rr w1 wr1 where
    f: "get_runs_for_workspace n c wid w = Some (Inr rr, w1)"
    and st: "store_runs wr o' n' \<lparr>workspace_id = wid, runs = rr\<rparr> = Inr wr1"
    and rest: "runs_stage n c tasks wr1 w1 = Some (Inr wr', w')"
    by (auto split: option.splits sum.splits prod.splits)
  from Cons.IH[OF rest] obtain results where
    r: "map task_of results = tasks"
       "fetch_runs n c tasks w1 = Some (Inr (map (\<lambda>r. runs (data_of r)) results), w')"
       "store_all wr1 results = Inr wr'"
    by blast
  have "map task_of ((o', n', wid, rr) # results) = t # tasks"
    using r(1) t by (simp add: task_of_def)
  moreover have "fetch_runs n c (t # tasks) w
      = Some (Inr (map (\<lambda>r. runs (data_of r)) ((o', n', wid, rr) # results)), w')"
    using f r(2) t by (simp add: data_of_def)
  moreover have "store_all wr ((o', n', wid, rr) # results) = Inr wr'"
    using st r(3) by simp
  ultimately show ?case by (intro exI[of _ "(o', n', wid, rr) # results"] conjI)
qed

section \<open>The stages of the collection\<close>

lemma workspaces_stage_distinct:
  "workspaces_stage n c tasks ows0 w = Some (Inr ows, w') \<Longrightarrow> distinct_keys ows0 \<Longrightarrow>
   distinct_keys ows"
proof (induction tasks arbitrary: ows0 w)
  case Nil
  then show ?case by simp
next
  case (Cons t tasks)
  from Cons.prems(1) obtain wsl w1 where
    rest: "workspaces_stage n c tasks (dict_update ows0 t wsl) w1 = Some (Inr ows, w')"
    by (auto simp: dict_setitem_def split: option.splits sum.splits prod.splits if_splits)
  from Cons.IH[OF rest] Cons.prems(2) show ?case
    by (simp add: distinct_keys_update)
qed

lemma workspace_run_tasks_mem:
  "workspace_run_tasks org ws = Inr tasks \<Longrightarrow> t \<in> set tasks \<Longrightarrow>
   \<exists>wsp \<in> set ws. fst t = org \<and> attributes_name wsp = Inr (fst (snd t))
      \<and> py_getitem wsp ''id'' = Inr (snd (snd t))"
proof (induction ws arbitrary: tasks)
  case Nil
  then show ?case by simp
next
  case (Cons wsp ws)
  from Cons.prems(1) obtain wid nm tasks' where
    h: "py_getitem wsp ''id'' = Inr wid" "attributes_name wsp = Inr nm"
       "workspace_run_tasks org ws = Inr tasks'" "tasks = (org, nm, wid) # tasks'"
    by (auto split: sum.splits)
  show ?case
  proof (cases "t = (org, nm, wid)")
    case True
    with h show ?thesis by simp
  next
    case False
    with Cons.prems(2) h(4) have "t \<in> set tasks'" by simp
    from Cons.IH[OF h(3) this] show ?thesis by auto
  qed
qed

lemma workspace_run_tasks_length:
  "workspace_run_tasks org ws = Inr tasks \<Longrightarrow> length tasks = length ws"
  by (induction ws arbitrary: tasks) (auto split: sum.splits)

lemma run_tasks_mem:
  "run_tasks ows = Inr tasks \<Longrightarrow> t \<in> set tasks \<Longrightarrow>
   \<exists>ws. (fst t, ws) \<in> set ows \<and> (\<exists>wsp \<in> set ws. attributes_name wsp = Inr (fst (snd t))
      \<and> py_getitem wsp ''id'' = Inr (snd (snd t)))"
proof (induction ows arbitrary: tasks)
  case Nil
  then show ?case by simp
next
  case (Cons kv ows)
  obtain org ws where kv: "kv = (org, ws)" by (cases kv)
  from Cons.prems(1) kv obtain t1 t2 where
    h: "workspace_run_tasks org ws = Inr t1" "run_tasks ows = Inr t2" "tasks = t1 @ t2"
    by (auto split: sum.splits)
  show ?case
  proof (cases "t \<in> set t1")
    case True
    from workspace_run_tasks_mem[OF h(1) True] kv show ?thesis by auto
  next
    case False
    with Cons.prems(2) h(3) have "t \<in> set t2" by simp
    from Cons.IH[OF h(2) this] show ?thesis by auto
  qed
qed

lemma run_tasks_length:
  "run_tasks ows = Inr tasks \<Longrightarrow> length tasks = count_workspaces ows"
proof (induction ows arbitrary: tasks)
  case Nil
  then show ?case by (simp add: count_workspaces_def)
next
  case (Cons kv ows)
  obtain org ws where kv: "kv = (org, ws)" by (cases kv)
  from Cons.prems(1) kv obtain t1 t2 where
    h: "workspace_run_tasks org ws = Inr t1" "run_tasks ows = Inr t2" "tasks = t1 @ t2"
    by (auto split: sum.splits)
  from workspace_run_tasks_length[OF h(1)] Cons.IH[OF h(2)] h(3) kv show ?case
    by (simp add: count_workspaces_def)
qed

lemma runs_lookup_mem:
  assumes "wf_runs wr" "(org, m) \<in> set wr" "(nm, d) \<in> set m"
  shows "runs_lookup wr org nm = Some d"
proof -
  from assms(1,2) have "dict_lookup wr org = Some m" "distinct_keys m"
    by (auto simp: wf_runs_def dict_lookup_mem)
  with assms(3) show ?thesis by (simp add: runs_lookup_def dict_lookup_mem)
qed

lemma find_Some_mem: "find P xs = Some x \<Longrightarrow> x \<in> set xs \<and> P x"
  by (induction xs) (auto split: if_splits)

lemma last_result_Some:
  "last_result results org nm = Some r \<Longrightarrow> r \<in> set results \<and> for_workspace org nm r"
  using find_Some_mem[of "for_workspace org nm" "rev results" r] by (simp add: last_result_def)

lemma get_all_data_stages:
  assumes "get_all_data n c w = Some (Inr snap, w')"
  shows "\<exists>w1 tasks w2 results.
           get_organizations n c w = Some (Inr (organizations snap), w1)
         \<and> workspace_tasks (organizations snap) = Inr tasks
         \<and> workspaces_stage n c tasks [] w1 = Some (Inr (workspaces snap), w2)
         \<and> run_tasks (workspaces snap) = Inr (map task_of results)
         \<and> fetch_runs n c (map task_of results) w2
             = Some (Inr (map (\<lambda>r. runs (data_of r)) results), w')
         \<and> store_all [] results = Inr (workspace_runs snap)
         \<and> summary snap = \<lparr>total_organizations = length (organizations snap),
                total_workspaces = count_workspaces (workspaces snap),
                total_runs = count_runs (workspace_runs snap)\<rparr>"
proof -
  from assms obtain orgs w1 tasks ows w2 rtasks wr where
    o: "get_organizations n c w = Some (Inr orgs, w1)"
    and t: "workspace_tasks orgs = Inr tasks"
    and ws: "workspaces_stage n c tasks [] w1 = Some (Inr ows, w2)"
    and rt: "run_tasks ows = Inr rtasks"
    and rs: "runs_stage n c rtasks [] w2 = Some (Inr wr, w')"
    and snap: "snap = \<lparr>organizations = orgs, workspaces = ows, workspace_runs = wr,
        summary = \<lparr>total_organizations = length orgs, total_workspaces = count_workspaces ows,
                   total_runs = count_runs wr\<rparr>\<rparr>"
    by (auto simp: get_all_data_def split: option.splits sum.splits prod.splits)
  from runs_stage_split[OF rs] obtain results where
    r: "map task_of results = rtasks"
       "fetch_runs n c rtasks w2 = Some (Inr (map (\<lambda>r. runs (data_of r)) results), w')"
       "store_all [] results = Inr wr"
    by blast
  show ?thesis
    using o t ws rt r by (intro exI[of _ w1] exI[of _ tasks] exI[of _ w2] exI[of _ results])
      (simp add: snap)
qed

lemma entry_is_last_result:
  assumes "store_all [] results = Inr wr" "(org, m) \<in> set wr" "(nm, d) \<in> set m"
  shows "\<exists>r. last_result results org nm = Some r \<and> data_of r = d"
proof -
  have "wf_runs []" by (simp add: wf_runs_def)
  from store_all_wf[OF assms(1) this] have "wf_runs wr" .
  from runs_lookup_mem[OF this assms(2,3)] have "runs_lookup wr org nm = Some d" .
  with store_all_lookup[OF assms(1), of org nm] show ?thesis
    by (auto simp: runs_lookup_def split: option.splits)
qed

section \<open>Sums over the runs dict\<close>

lemma dict_sum_Nil [simp]: "dict_sum h [] = 0"
  by (simp add: dict_sum_def)

lemma dict_sum_Cons [simp]: "dict_sum h ((k, v) # d) = h k v + dict_sum h d"
  by (simp add: dict_sum_def)

lemma dict_sum_append [simp]: "dict_sum h (d @ d') = dict_sum h d + dict_sum h d'"
  by (simp add: dict_sum_def)

lemma dict_sum_cong:
  "(\<And>k v. (k, v) \<in> set d \<Longrightarrow> h k v = h' k v) \<Longrightarrow> dict_sum h d = dict_sum h' d"
  unfolding dict_sum_def by (rule arg_cong[where f = sum_list], rule map_cong) auto

lemma dict_sum_no_key:
  assumes "\<And>k v. (k, v) \<in> set d \<Longrightarrow> \<not> py_eq k0 k"
  shows "dict_sum (\<lambda>k v. if py_eq k0 k then 0 else h k v) d = dict_sum h d"
  by (rule dict_sum_cong) (use assms in auto)

lemma distinct_keys_Cons:
  "distinct_keys ((k1, v1) # d) \<Longrightarrow> distinct_keys d \<and> (\<forall>kv \<in> set d. \<not> py_eq k1 (fst kv))"
  by (auto simp: distinct_keys_def py_eq_def)

lemma dict_update_Cons_eq: "py_eq k1 k0 \<Longrightarrow> dict_update ((k1, v1) # d) k0 v0 = (k1, v0) # d"
  by simp

lemma dict_update_Cons_neq:
  "\<not> py_eq k1 k0 \<Longrightarrow> dict_update ((k1, v1) # d) k0 v0 = (k1, v1) # dict_update d k0 v0"
  by simp

lemma dict_sum_update:
  assumes "distinct_keys d" and inv: "\<And>k k' v. py_eq k k' \<Longrightarrow> h k v = h k' v"
  shows "dict_sum h (dict_update d k0 v0)
         = dict_sum (\<lambda>k v. if py_eq k0 k then 0 else h k v) d + h k0 v0"
  using assms(1)
proof (induction d)
  case Nil
  show ?case by simp
next
  case (Cons kv d)
  obtain k1 v1 where kv: "kv = (k1, v1)" by (cases kv)
  from Cons.prems have "distinct_keys ((k1, v1) # d)" unfolding kv .
  from distinct_keys_Cons[OF this]
  have dk: "distinct_keys d" and nk: "\<forall>kv \<in> set d. \<not> py_eq k1 (fst kv)"
    by simp_all
  let ?h0 = "\<lambda>k v. if py_eq k0 k then 0 else h k v"
  show ?case
  proof (cases "py_eq k1 k0")
    case True
    have "\<And>k v. (k, v) \<in> set d \<Longrightarrow> \<not> py_eq k0 k"
    proof
      fix k v assume "(k, v) \<in> set d" "py_eq k0 k"
      with nk True show False by (auto simp: py_eq_def)
    qed
    then have a: "dict_sum ?h0 d = dict_sum h d"
      by (rule dict_sum_no_key)
    have b: "h k1 v0 = h k0 v0" using True by (rule inv)
    have c: "py_eq k0 k1" using True by (rule py_eq_sym)
    have "dict_sum h (dict_update (kv # d) k0 v0) = h k1 v0 + dict_sum h d"
      unfolding kv dict_update_Cons_eq[OF True] by (rule dict_sum_Cons)
    moreover have "dict_sum ?h0 (kv # d) = dict_sum ?h0 d"
      unfolding kv dict_sum_Cons using c by simp
    ultimately show ?thesis using a b by simp
  next
    case False
    then have n: "\<not> py_eq k0 k1" using py_eq_sym by blast
    have "dict_sum h (dict_update (kv # d) k0 v0) = h k1 v1 + dict_sum h (dict_update d k0 v0)"
      unfolding kv dict_update_Cons_neq[OF False] by (rule dict_sum_Cons)
    moreover have "dict_sum ?h0 (kv # d) = h k1 v1 + dict_sum ?h0 d"
      unfolding kv dict_sum_Cons using n by simp
    ultimately show ?thesis using Cons.IH[OF dk] by simp
  qed
qed

lemma dict_sum_lookup:
  assumes "distinct_keys d" and "dict_lookup d k0 = Some m"
    and inv: "\<And>k k' v. py_eq k k' \<Longrightarrow> h k v = h k' v"
  shows "dict_sum h d = dict_sum (\<lambda>k v. if py_eq k0 k then 0 else h k v) d + h k0 m"
  using assms(1,2)
proof (induction d)
  case Nil
  then show ?case by simp
next
  case (Cons kv d)
  obtain k1 v1 where kv: "kv = (k1, v1)" by (cases kv)
  from Cons.prems(1) have "distinct_keys ((k1, v1) # d)" unfolding kv .
  from distinct_keys_Cons[OF this]
  have dk: "distinct_keys d" and nk: "\<forall>kv \<in> set d. \<not> py_eq k1 (fst kv)"
    by simp_all
  let ?h0 = "\<lambda>k v. if py_eq k0 k then 0 else h k v"
  show ?case
  proof (cases "py_eq k1 k0")
    case True
    with Cons.prems(2) have m: "v1 = m" unfolding kv by simp
    have "\<And>k v. (k, v) \<in> set d \<Longrightarrow> \<not> py_eq k0 k"
    proof
      fix k v assume "(k, v) \<in> set d" "py_eq k0 k"
      with nk True show False by (auto simp: py_eq_def)
    qed
    then have a: "dict_sum ?h0 d = dict_sum h d"
      by (rule dict_sum_no_key)
    have b: "h k1 m = h k0 m" using True by (rule inv)
    have c: "py_eq k0 k1" using True by (rule py_eq_sym)
    have "dict_sum ?h0 (kv # d) = dict_sum ?h0 d"
      unfolding kv dict_sum_Cons using c by simp
    moreover have "dict_sum h (kv # d) = h k1 m + dict_sum h d"
      unfolding kv m by (rule dict_sum_Cons)
    ultimately show ?thesis using a b by simp
  next
    case False
    then have n: "\<not> py_eq k0 k1" using py_eq_sym by blast
    from False Cons.prems(2) have l: "dict_lookup d k0 = Some m" unfolding kv by simp
    have "dict_sum ?h0 (kv # d) = h k1 v1 + dict_sum ?h0 d"
      unfolding kv dict_sum_Cons using n by simp
    moreover have "dict_sum h (kv # d) = h k1 v1 + dict_sum h d"
      unfolding kv by (rule dict_sum_Cons)
    ultimately show ?thesis using Cons.IH[OF dk l] by simp
  qed
qed

lemma dict_update_absent: "dict_lookup d k = None \<Longrightarrow> dict_update d k v = d @ [(k, v)]"
  by (induction d) (auto split: if_splits)

lemma store_runs_shape_snoc:
  assumes "store_runs wr org nm e = Inr wr'"
  shows "\<exists>wr1 m. wr' = dict_update wr1 org (dict_update m nm e) \<and> dict_lookup wr1 org = Some m
           \<and> (wr1 = wr \<or> (wr1 = dict_update wr org [] \<and> wr1 = wr @ [(org, [])] \<and> m = []))"
proof (cases "dict_lookup wr org")
  case None
  with assms have "wr' = dict_update (dict_update wr org []) org (dict_update [] nm e)"
    by (auto simp: store_runs_def dict_setitem_def dict_lookup_update split: if_splits)
  moreover have "dict_lookup (dict_update wr org []) org = Some []"
    by (simp add: dict_lookup_update)
  moreover have "dict_update wr org [] = wr @ [(org, [])]"
    using None by (rule dict_update_absent)
  ultimately show ?thesis
    by (intro exI[of _ "dict_update wr org []"] exI[of _ "[]"]) simp
next
  case (Some m)
  with assms have "wr' = dict_update wr org (dict_update m nm e)"
    by (auto simp: store_runs_def dict_setitem_def split: if_splits)
  with Some show ?thesis by blast
qed

lemma runs_sum_store:
  assumes st: "store_runs wr org nm e = Inr wr'" and wf: "wf_runs wr"
    and inv: "\<And>a a' b b' d. py_eq a a' \<Longrightarrow> py_eq b b' \<Longrightarrow> g a b d = g a' b' d"
  shows "runs_sum g wr'
         = runs_sum (\<lambda>a b d. if py_eq org a \<and> py_eq nm b then 0 else g a b d) wr + g org nm e"
proof -
  let ?g' = "\<lambda>a b d. if py_eq org a \<and> py_eq nm b then 0 else g a b d"
  let ?H = "\<lambda>a m. dict_sum (g a) m"
  let ?H' = "\<lambda>a m. dict_sum (?g' a) m"
  from store_runs_shape_snoc[OF st] obtain wr1 m where
    s: "wr' = dict_update wr1 org (dict_update m nm e)" "dict_lookup wr1 org = Some m"
       "wr1 = wr \<or> (wr1 = dict_update wr org [] \<and> wr1 = wr @ [(org, [])] \<and> m = [])"
    by blast
  have wf1: "wf_runs wr1"
    using s(3) wf wf_runs_update[OF wf, of "[]" org] by auto
  have dk1: "distinct_keys wr1" and dm: "distinct_keys m"
    using wf1 wf_runs_lookup[OF wf1 s(2)] by (simp_all add: wf_runs_def)
  have invH: "\<And>k k' v. py_eq k k' \<Longrightarrow> ?H k v = ?H k' v"
    by (rule dict_sum_cong) (auto intro: inv)
  have invH': "\<And>k k' v. py_eq k k' \<Longrightarrow> ?H' k v = ?H' k' v"
    by (rule dict_sum_cong) (auto simp: py_eq_right intro: inv)
  have "runs_sum g wr' = dict_sum (\<lambda>a mm. if py_eq org a then 0 else ?H a mm) wr1
                          + ?H org (dict_update m nm e)"
    unfolding runs_sum_def s(1) using dk1 invH by (rule dict_sum_update)
  also have "?H org (dict_update m nm e)
             = dict_sum (\<lambda>b d. if py_eq nm b then 0 else g org b d) m + g org nm e"
    using dm by (rule dict_sum_update) (auto intro: inv)
  also have "dict_sum (\<lambda>b d. if py_eq nm b then 0 else g org b d) m = ?H' org m"
    by (rule dict_sum_cong) simp
  also have "(\<lambda>a mm. if py_eq org a then 0 else ?H a mm)
             = (\<lambda>a mm. if py_eq org a then 0 else ?H' a mm)"
    by (intro ext) (auto intro: dict_sum_cong)
  finally have "runs_sum g wr'
      = (dict_sum (\<lambda>a mm. if py_eq org a then 0 else ?H' a mm) wr1 + ?H' org m) + g org nm e"
    by simp
  also have "dict_sum (\<lambda>a mm. if py_eq org a then 0 else ?H' a mm) wr1 + ?H' org m
             = dict_sum ?H' wr1"
    using dict_sum_lookup[OF dk1 s(2), of ?H'] invH' by simp
  also have "dict_sum ?H' wr1 = runs_sum ?g' wr"
    using s(3) by (auto simp: runs_sum_def)
  finally show ?thesis .
qed

section \<open>The snapshot's invariants\<close>

lemma for_workspace_cong:
  "py_eq a a' \<Longrightarrow> py_eq b b' \<Longrightarrow> for_workspace a b r = for_workspace a' b' r"
  by (simp add: for_workspace_def py_eq_def)

lemma runs_sum_store_all:
  "store_all wr rs = Inr wr' \<Longrightarrow> wf_runs wr \<Longrightarrow>
   runs_sum (\<lambda>a b d. length (runs d)) wr'
   = runs_sum (\<lambda>a b d. if \<exists>r \<in> set rs. for_workspace a b r then 0 else length (runs d)) wr
     + sum_list (map (\<lambda>r. length (runs (data_of r))) (retained rs))"
proof (induction rs arbitrary: wr)
  case Nil
  then show ?case by simp
next
  case (Cons r rs)
  obtain o' n' wid rr where r: "r = (o', n', wid, rr)" by (cases r)
  let ?e = "\<lparr>workspace_id = wid, runs = rr\<rparr>"
  let ?g = "\<lambda>a b d. if \<exists>r \<in> set rs. for_workspace a b r then 0 else length (runs d)"
  from Cons.prems(1) r obtain wr1 where
    st: "store_runs wr o' n' ?e = Inr wr1"
    and rest: "store_all wr1 rs = Inr wr'"
    by (auto split: sum.splits)
  have wf1: "wf_runs wr1" using st Cons.prems(2) by (rule wf_runs_store)
  have inv: "\<And>a a' b b' d. py_eq a a' \<Longrightarrow> py_eq b b' \<Longrightarrow> ?g a b d = ?g a' b' d"
    using for_workspace_cong by auto
  have a: "runs_sum (\<lambda>a b d. length (runs d)) wr'
           = runs_sum ?g wr1 + sum_list (map (\<lambda>r. length (runs (data_of r))) (retained rs))"
    by (rule Cons.IH[OF rest wf1])
  have b: "runs_sum ?g wr1
           = runs_sum (\<lambda>a b d. if py_eq o' a \<and> py_eq n' b then 0 else ?g a b d) wr + ?g o' n' ?e"
    using st Cons.prems(2) inv by (rule runs_sum_store)
  have c: "(\<lambda>a b d. if py_eq o' a \<and> py_eq n' b then 0 else ?g a b d)
           = (\<lambda>a b d. if \<exists>x \<in> set (r # rs). for_workspace a b x then 0 else length (runs d))"
    by (intro ext) (auto simp: r for_workspace_def)
  have d: "?g o' n' ?e + sum_list (map (\<lambda>r. length (runs (data_of r))) (retained rs))
           = sum_list (map (\<lambda>r. length (runs (data_of r))) (retained (r # rs)))"
    by (simp add: r data_of_def)
  show ?case unfolding a b c using d by simp
qed

lemma count_runs_runs_sum: "count_runs wr = runs_sum (\<lambda>a b d. length (runs d)) wr"
  by (simp add: count_runs_def runs_sum_def dict_sum_def sum_list_concat_map comp_def)

lemma runs_sum_Nil [simp]: "runs_sum g [] = 0"
  by (simp add: runs_sum_def)

lemma wf_runs_Nil [simp]: "wf_runs []"
  by (simp add: wf_runs_def)

text \<open>
  C8: in every snapshot \<open>get_all_data\<close> returns, whenever an organization name and a
  workspace name are keys of the runs mapping, with the entry \<open>d\<close>, the organization
  name is a key of the workspaces mapping, and the workspace list stored there holds a
  workspace whose name attribute is that workspace name (equal as a dict key) and
  whose id is the \<open>workspace_id\<close> of the entry.
\<close>

theorem runs_keys_in_workspaces:
  assumes "get_all_data n c w = Some (Inr snap, w')"
    and "(org_name, org_runs) \<in> set (workspace_runs snap)"
    and "(workspace_name, d) \<in> set org_runs"
  shows "\<exists>ws. (org_name, ws) \<in> set (workspaces snap)
           \<and> (\<exists>wsp \<in> set ws. \<exists>nm. attributes_name wsp = Inr nm \<and> py_eq nm workspace_name
                  \<and> py_getitem wsp ''id'' = Inr (workspace_id d))"
proof -
  from get_all_data_stages[OF assms(1)] obtain w1 tasks w2 results where
    ws: "workspaces_stage n c tasks [] w1 = Some (Inr (workspaces snap), w2)"
    and rt: "run_tasks (workspaces snap) = Inr (map task_of results)"
    and sa: "store_all [] results = Inr (workspace_runs snap)"
    by blast
  have dk: "distinct_keys (workspaces snap)"
    using ws by (rule workspaces_stage_distinct) simp
  from entry_is_last_result[OF sa assms(2,3)] obtain r where
    lr: "last_result results org_name workspace_name = Some r" and d: "data_of r = d"
    by blast
  from last_result_Some[OF lr] have r: "r \<in> set results"
    and fw: "py_eq (fst r) org_name" "py_eq (fst (snd r)) workspace_name"
    by (simp_all add: for_workspace_def)
  from r have "task_of r \<in> set (map task_of results)" by simp
  from run_tasks_mem[OF rt this] obtain ws wsp where
    m: "(fst r, ws) \<in> set (workspaces snap)" "wsp \<in> set ws"
       "attributes_name wsp = Inr (fst (snd r))"
       "py_getitem wsp ''id'' = Inr (fst (snd (snd r)))"
    by (auto simp: task_of_def)
  from store_all_keys[OF sa] assms(2) have "org_name \<in> fst ` set results" by force
  then obtain r0 where r0: "r0 \<in> set results" "fst r0 = org_name" by auto
  from r0(1) have "task_of r0 \<in> set (map task_of results)" by simp
  from run_tasks_mem[OF rt this] r0(2) obtain ws0 where
    m0: "(org_name, ws0) \<in> set (workspaces snap)"
    by (auto simp: task_of_def)
  from distinct_keys_same[OF dk m(1) m0 fw(1)] have "fst r = org_name" "ws = ws0" by simp_all
  with m d fw(2) have "(org_name, ws) \<in> set (workspaces snap)" "wsp \<in> set ws"
    "attributes_name wsp = Inr (fst (snd r))" "py_eq (fst (snd r)) workspace_name"
    "py_getitem wsp ''id'' = Inr (workspace_id d)"
    by (auto simp: data_of_def)
  then show ?thesis by blast
qed

theorem runs_keys_in_workspaces_witness:
  "(\<exists>w'. get_all_data 2 (table_client duplicate_names) (start 10 ())
          = Some (Inr duplicate_names_snapshot, w'))
   \<and> (JStr ''acme'', [(JStr ''app'', \<lparr>workspace_id = JStr ''ws-2'', runs = [item ''run-3'' ''c'']\<rparr>)])
       \<in> set (workspace_runs duplicate_names_snapshot)
   \<and> (JStr ''app'', \<lparr>workspace_id = JStr ''ws-2'', runs = [item ''run-3'' ''c'']\<rparr>)
       \<in> set [(JStr ''app'', \<lparr>workspace_id = JStr ''ws-2'', runs = [item ''run-3'' ''c'']\<rparr>)]
   \<and> (\<exists>ws. (JStr ''acme'', ws) \<in> set (workspaces duplicate_names_snapshot)
           \<and> (\<exists>wsp \<in> set ws. \<exists>nm. attributes_name wsp = Inr nm \<and> py_eq nm (JStr ''app'')
                  \<and> py_getitem wsp ''id'' = Inr (JStr ''ws-2'')))"
proof -
  have h2: "(JStr ''acme'', [(JStr ''app'', \<lparr>workspace_id = JStr ''ws-2'', runs = [item ''run-3'' ''c'']\<rparr>)])
       \<in> set (workspace_runs duplicate_names_snapshot)"
    by (simp add: duplicate_names_snapshot_def)
  have h3: "(JStr ''app'', \<lparr>workspace_id = JStr ''ws-2'', runs = [item ''run-3'' ''c'']\<rparr>)
       \<in> set [(JStr ''app'', \<lparr>workspace_id = JStr ''ws-2'', runs = [item ''run-3'' ''c'']\<rparr>)]"
    by simp
  from runs_keys_in_workspaces [OF duplicate_names_run h2 h3] duplicate_names_run h2 h3
  show ?thesis by simp
qed

text \<open>
  C10: in every snapshot \<open>get_all_data\<close> returns there is one result per workspace
  of the workspaces mapping, duplicates of a name included, each with the runs that
  were fetched for it, in task order. The runs mapping, read at any organization name
  and workspace name, holds the data of the last-processed result for these names and
  nothing else, so that the entries of earlier workspaces of the same name are gone.
  \<open>total_runs\<close> is the sum of the run counts of the results that no later result
  for the same names follows, and \<open>total_workspaces\<close> is the number of all results.
\<close>

theorem duplicate_names_keep_last:
  assumes "get_all_data n c w = Some (Inr snap, w')"
  shows "\<exists>w1 tasks w2 results.
           get_organizations n c w = Some (Inr (organizations snap), w1)
         \<and> workspace_tasks (organizations snap) = Inr tasks
         \<and> workspaces_stage n c tasks [] w1 = Some (Inr (workspaces snap), w2)
         \<and> run_tasks (workspaces snap) = Inr (map task_of results)
         \<and> fetch_runs n c (map task_of results) w2
             = Some (Inr (map (\<lambda>r. runs (data_of r)) results), w')
         \<and> (\<forall>org_name workspace_name.
               runs_lookup (workspace_runs snap) org_name workspace_name
               = map_option data_of (last_result results org_name workspace_name))
         \<and> (\<forall>org_name org_runs workspace_name d.
               (org_name, org_runs) \<in> set (workspace_runs snap)
               \<and> (workspace_name, d) \<in> set org_runs \<longrightarrow>
               map_option data_of (last_result results org_name workspace_name) = Some d)
         \<and> total_runs (summary snap)
             = sum_list (map (\<lambda>r. length (runs (data_of r))) (retained results))
         \<and> total_workspaces (summary snap) = length results"
proof -
  from get_all_data_stages[OF assms(1)] obtain w1 tasks w2 results where
    o: "get_organizations n c w = Some (Inr (organizations snap), w1)"
    and t: "workspace_tasks (organizations snap) = Inr tasks"
    and ws: "workspaces_stage n c tasks [] w1 = Some (Inr (workspaces snap), w2)"
    and rt: "run_tasks (workspaces snap) = Inr (map task_of results)"
    and fr: "fetch_runs n c (map task_of results) w2
             = Some (Inr (map (\<lambda>r. runs (data_of r)) results), w')"
    and sa: "store_all [] results = Inr (workspace_runs snap)"
    and su: "summary snap = \<lparr>total_organizations = length (organizations snap),
                total_workspaces = count_workspaces (workspaces snap),
                total_runs = count_runs (workspace_runs snap)\<rparr>"
    by blast
  have a: "runs_lookup (workspace_runs snap) org_name workspace_name
           = map_option data_of (last_result results org_name workspace_name)"
    for org_name workspace_name
    using store_all_lookup[OF sa, of org_name workspace_name]
    by (simp add: runs_lookup_def split: option.splits)
  have b: "map_option data_of (last_result results org_name workspace_name) = Some d"
    if "(org_name, org_runs) \<in> set (workspace_runs snap) \<and> (workspace_name, d) \<in> set org_runs"
    for org_name org_runs workspace_name d
    using entry_is_last_result[OF sa, of org_name org_runs workspace_name d] that by auto
  have c: "total_runs (summary snap)
           = sum_list (map (\<lambda>r. length (runs (data_of r))) (retained results))"
    using runs_sum_store_all[OF sa] by (simp add: su count_runs_runs_sum)
  have d: "total_workspaces (summary snap) = length results"
    using run_tasks_length[OF rt] by (simp add: su)
  from o t ws rt fr a b c d show ?thesis by blast
qed

theorem duplicate_names_keep_last_witness:
  "(\<exists>w'. get_all_data 2 (table_client duplicate_names) (start 10 ())
          = Some (Inr duplicate_names_snapshot, w')
      \<and> (\<exists>w1 tasks w2 results.
           get_organizations 2 (table_client duplicate_names) (start 10 ())
             = Some (Inr (organizations duplicate_names_snapshot), w1)
         \<and> workspace_tasks (organizations duplicate_names_snapshot) = Inr tasks
         \<and> workspaces_stage 2 (table_client duplicate_names) tasks [] w1
             = Some (Inr (workspaces duplicate_names_snapshot), w2)
         \<and> run_tasks (workspaces duplicate_names_snapshot) = Inr (map task_of results)
         \<and> fetch_runs 2 (table_client duplicate_names) (map task_of results) w2
             = Some (Inr (map (\<lambda>r. runs (data_of r)) results), w')
         \<and> (\<forall>org_name workspace_name.
               runs_lookup (workspace_runs duplicate_names_snapshot) org_name workspace_name
               = map_option data_of (last_result results org_name workspace_name))
         \<and> (\<forall>org_name org_runs workspace_name d.
               (org_name, org_runs) \<in> set (workspace_runs duplicate_names_snapshot)
               \<and> (workspace_name, d) \<in> set org_runs \<longrightarrow>
               map_option data_of (last_result results org_name workspace_name) = Some d)
         \<and> total_runs (summary duplicate_names_snapshot)
             = sum_list (map (\<lambda>r. length (runs (data_of r))) (retained results))
         \<and> total_workspaces (summary duplicate_names_snapshot) = length results))
   \<and> total_runs (summary duplicate_names_snapshot) = 1
   \<and> total_workspaces (summary duplicate_names_snapshot) = 2"
proof -
  have "total_runs (summary duplicate_names_snapshot) = 1"
    "total_workspaces (summary duplicate_names_snapshot) = 2"
    by (simp_all add: duplicate_names_snapshot_def)
  with duplicate_names_keep_last [OF duplicate_names_run] duplicate_names_run
  show ?thesis by simp
qed

section \<open>The analyzer's input\<close>



end
